(* ===== verification/Prelude.thy ===== *)
theory Prelude
  imports Complex_Main "HOL-Library.Word" "HOL-Library.Multiset" "HOL-Library.Product_Lexorder"
begin

text \<open>
  Shared vocabulary of the order-book streamer development: the machine integer types of
  the Rust sources, the panics the code can raise (modelled as values of a sum type, with
  \<open>Inl\<close> for the panic), Rust's checked slice indexing, and generic lemmas on sorting by
  a key and on permutations that the aggregation proofs share.
\<close>

named_theorems step_simps "unfolding rules for the step functions of the components"

type_synonym u64 = "64 word"
type_synonym usize = "64 word"
type_synonym bytes = "8 word list"

text \<open>
  A Rust panic ends the task that raises it. The model keeps the reason: an index out of
  bounds (index and length), an \<open>expect\<close> with its message, or an \<open>unwrap\<close> on
  \<open>None\<close>/\<open>Err\<close>.
\<close>

datatype panic =
    PanicIndex nat nat
  | PanicExpect string
  | PanicUnwrap

text \<open>Rust's \<open>v[i]\<close> on a vector: the element, or a panic when \<open>i\<close> is out of bounds.\<close>

definition vec_index :: "'a list \<Rightarrow> nat \<Rightarrow> panic + 'a" where
  "vec_index xs i = (if i < length xs then Inr (xs ! i) else Inl (PanicIndex i (length xs)))"

text \<open>
  Rust's \<open>sort_unstable_by_key\<close> leaves the order of elements with equal keys
  unspecified. Its contract: the output is a permutation of the input, sorted by the key.
  \<open>is_sort_by_key f srt\<close> says that the function \<open>srt\<close> meets that contract for
  every input.
\<close>

definition sorted_by_key :: "('a \<Rightarrow> 'k::linorder) \<Rightarrow> 'a list \<Rightarrow> 'a list \<Rightarrow> bool" where
  "sorted_by_key f xs ys \<longleftrightarrow> mset ys = mset xs \<and> sorted (map f ys)"

definition is_sort_by_key :: "('a \<Rightarrow> 'k::linorder) \<Rightarrow> ('a list \<Rightarrow> 'a list) \<Rightarrow> bool" where
  "is_sort_by_key f srt \<longleftrightarrow> (\<forall>xs. sorted_by_key f xs (srt xs))"

lemma vec_index_0_Inr [simp]: "vec_index (x # xs) 0 = Inr x"
  by (simp add: vec_index_def)

lemma vec_index_Nil [simp]: "vec_index [] i = Inl (PanicIndex i 0)"
  by (simp add: vec_index_def)

subsection \<open>Sorting by a key\<close>

text \<open>
  What every sort meeting the contract shares is the sequence of keys: any permutation of
  the input that is sorted by the key has the key sequence of the library sort.
\<close>

lemma sort_key_sorted_by_key: "sorted_by_key f xs (sort_key f xs)"
  by (simp add: sorted_by_key_def)

lemma sorted_by_key_keys:
  assumes "sorted_by_key f xs ys"
  shows "map f ys = sort (map f xs)"
proof -
  from assms have m: "mset (map f ys) = mset (map f xs)" and s: "sorted (map f ys)"
    by (simp_all add: sorted_by_key_def)
  from properties_for_sort [OF m s] show ?thesis by simp
qed

lemma sorted_take_map: "sorted (map f xs) \<Longrightarrow> sorted (map f (take n xs))"
  by (simp add: take_map [symmetric] sorted_wrt_take)

lemma is_sort_by_key_sort_key: "is_sort_by_key f (sort_key f)"
  by (simp add: is_sort_by_key_def sort_key_sorted_by_key)

lemma sort_by_key_Nil_iff: "is_sort_by_key f srt \<Longrightarrow> srt xs = [] \<longleftrightarrow> xs = []"
  by (metis is_sort_by_key_def mset_zero_iff_right sorted_by_key_def mset_zero_iff)

lemma sort_by_key_set: "is_sort_by_key f srt \<Longrightarrow> set (srt xs) = set xs"
  by (metis is_sort_by_key_def set_mset_mset sorted_by_key_def)

lemma sort_by_key_mset: "is_sort_by_key f srt \<Longrightarrow> mset (srt xs) = mset xs"
  by (simp add: is_sort_by_key_def sorted_by_key_def)

lemma sort_by_key_length: "is_sort_by_key f srt \<Longrightarrow> length (srt xs) = length xs"
  by (metis size_mset sort_by_key_mset)

lemma sort_by_key_keys: "is_sort_by_key f srt \<Longrightarrow> map f (srt xs) = sort (map f xs)"
  by (simp add: is_sort_by_key_def sorted_by_key_keys)

lemma sorted_map_hd_le: "sorted (map f ys) \<Longrightarrow> y \<in> set ys \<Longrightarrow> f (hd ys) \<le> f y"
  by (cases ys) auto

lemma mset_take_subseteq: "mset (take n xs) \<subseteq># mset xs"
  by (metis append_take_drop_id mset_append mset_subset_eq_add_left)

subsection \<open>Permutations\<close>

lemma mset_concat_map:
  "mset (concat (map g xs)) = sum_mset (image_mset (mset \<circ> g) (mset xs))"
  by (induction xs) auto

end
