(* ===== verification/Model.thy ===== *)
theory Model
  imports Prelude
begin

text \<open>
  The canonical model of \<^verbatim>\<open>data-streamer\<close> (\<^verbatim>\<open>src/data-streamer/src/lib.rs\<close>,
  \<^verbatim>\<open>model.rs\<close>) and the two exchange-native models with their \<open>From\<close>
  conversions (\<^verbatim>\<open>exchanges/binance/model.rs\<close>, \<^verbatim>\<open>exchanges/bitstamp/model.rs\<close>).
  Prices and amounts are \<open>f64\<close> in the code; the model reads them as \<open>real\<close>
  (finite, non-NaN values, on which \<open>FloatOrd\<close> orders as the reals do).
  \<open>usize\<close> fields are 64-bit words.
\<close>

subsection \<open>Exchange\<close>

text \<open>\<^verbatim>\<open>enum Exchange { #[default] Binance, Bitstamp }\<close>, with the string forms that
  \<open>Serialize_enum_str\<close> and \<open>Deserialize_enum_str\<close> derive: the variant name.\<close>

datatype exchange = Binance | Bitstamp

text \<open>
  The exchanges in declaration order, and the finiteness of the type: with them the
  library's \<open>sorted_list_of_set\<close> enumerates the keys of any map on exchanges. The
  code derives no order; this one only names an enumeration.
\<close>

instantiation exchange :: linorder
begin

definition less_eq_exchange :: "exchange \<Rightarrow> exchange \<Rightarrow> bool" where
  "less_eq_exchange a b \<longleftrightarrow> a = Binance \<or> b = Bitstamp"

definition less_exchange :: "exchange \<Rightarrow> exchange \<Rightarrow> bool" where
  "less_exchange a b \<longleftrightarrow> a = Binance \<and> b = Bitstamp"

instance
proof
  fix a b c :: exchange
  show "a < b \<longleftrightarrow> a \<le> b \<and> \<not> b \<le> a" by (cases a; cases b) (simp_all add: less_eq_exchange_def less_exchange_def)
  show "a \<le> a" by (cases a) (simp_all add: less_eq_exchange_def)
  show "a \<le> b \<Longrightarrow> b \<le> c \<Longrightarrow> a \<le> c" by (cases a; cases b) (simp_all add: less_eq_exchange_def)
  show "a \<le> b \<Longrightarrow> b \<le> a \<Longrightarrow> a = b" by (cases a; cases b) (simp_all add: less_eq_exchange_def)
  show "a \<le> b \<or> b \<le> a" by (cases a; cases b) (simp_all add: less_eq_exchange_def)
qed

end

instance exchange :: finite
proof
  have "(UNIV :: exchange set) = {Binance, Bitstamp}" using exchange.exhaust by auto
  then show "finite (UNIV :: exchange set)" by (metis finite.emptyI finite.insertI)
qed

definition exchange_default :: exchange where
  "exchange_default = Binance"

fun exchange_to_string :: "exchange \<Rightarrow> string" where
  "exchange_to_string Binance = ''Binance''"
| "exchange_to_string Bitstamp = ''Bitstamp''"

definition exchange_of_string :: "string \<Rightarrow> exchange option" where
  "exchange_of_string s =
     (if s = ''Binance'' then Some Binance
      else if s = ''Bitstamp'' then Some Bitstamp
      else None)"

subsection \<open>Instrument\<close>

record instrument =
  quote :: string
  base :: string

text \<open>
  \<open>str::to_lowercase\<close> on the ASCII range. The only comparison the code makes is with
  \<open>"usd"\<close>, and the only characters whose Unicode lowercase is \<open>u\<close>, \<open>s\<close> or
  \<open>d\<close> are these letters and their ASCII capitals, so the restriction changes no outcome.
\<close>

definition char_to_lowercase :: "char \<Rightarrow> char" where
  "char_to_lowercase c =
     (let n = (of_char c :: nat) in if 65 \<le> n \<and> n \<le> 90 then char_of (n + 32) else c)"

definition to_lowercase :: "string \<Rightarrow> string" where
  "to_lowercase s = map char_to_lowercase s"

definition get_symbol_compact :: "instrument \<Rightarrow> string" where
  "get_symbol_compact i = base i @ quote i"

definition get_symbol_dash :: "instrument \<Rightarrow> string" where
  "get_symbol_dash i = base i @ ''-'' @ quote i"

definition get_symbol_slash :: "instrument \<Rightarrow> string" where
  "get_symbol_slash i = base i @ ''/'' @ quote i"

definition get_symbol_compact_usdt :: "instrument \<Rightarrow> string" where
  "get_symbol_compact_usdt i =
     (if to_lowercase (base i) = ''usd'' then base i @ ''t'' @ quote i
      else if to_lowercase (quote i) = ''usd'' then base i @ quote i @ ''t''
      else base i @ quote i)"

subsection \<open>Normalised order book\<close>

record order_book_level =
  price :: real
  amount :: real

record order_book =
  exchange :: exchange
  sequence :: usize
  instrument :: string
  bids :: "order_book_level list"
  asks :: "order_book_level list"

text \<open>\<open>#[derive(Default)]\<close>: the default exchange, sequence 0, empty strings and sides.\<close>

definition order_book_default :: order_book where
  "order_book_default =
     \<lparr>exchange = exchange_default, sequence = 0, instrument = [], bids = [], asks = []\<rparr>"

subsection \<open>Exchange-native models\<close>

record binance_order_book =
  last_update_id :: usize
  bn_bids :: "order_book_level list"
  bn_asks :: "order_book_level list"

record bitstamp_order_book =
  bs_timestamp :: usize
  bs_microtimestamp :: usize
  bs_bids :: "order_book_level list"
  bs_asks :: "order_book_level list"

record bitstamp_order_book_wrapper =
  bsw_event :: string
  bsw_channel :: string
  bsw_data :: bitstamp_order_book

text \<open>\<open>impl From<(Exchange, String, BinanceOrderBook)> for OrderBook\<close>.\<close>

definition order_book_from_binance :: "exchange \<Rightarrow> string \<Rightarrow> binance_order_book \<Rightarrow> order_book" where
  "order_book_from_binance ex instr book =
     \<lparr>exchange = ex, sequence = last_update_id book, instrument = instr,
      bids = bn_bids book, asks = bn_asks book\<rparr>"

text \<open>\<open>impl From<(Exchange, String, BitStampOrderBookWrapper)> for OrderBook\<close>: the
  sequence is the second-resolution \<open>timestamp\<close>; \<open>microtimestamp\<close> is dropped.\<close>

definition order_book_from_bitstamp ::
  "exchange \<Rightarrow> string \<Rightarrow> bitstamp_order_book_wrapper \<Rightarrow> order_book" where
  "order_book_from_bitstamp ex instr book =
     \<lparr>exchange = ex, sequence = bs_timestamp (bsw_data book), instrument = instr,
      bids = bs_bids (bsw_data book), asks = bs_asks (bsw_data book)\<rparr>"

subsection \<open>JSON values\<close>

text \<open>\<open>serde_json::Value\<close>, as far as the connectors inspect it; objects keep their
  members in order.\<close>

datatype json =
    JNull
  | JBool bool
  | JNumber real
  | JString string
  | JArray "json list"
  | JObject "(string \<times> json) list"

text \<open>\<open>Value::as_str\<close>.\<close>

fun json_as_str :: "json \<Rightarrow> string option" where
  "json_as_str (JString s) = Some s"
| "json_as_str _ = None"

subsection \<open>Symbol renderings and case\<close>

lemma char_to_lowercase_idem [simp]: "char_to_lowercase (char_to_lowercase c) = char_to_lowercase c"
proof -
  have "of_char (char_of (of_char c + 32 :: nat)) = (of_char c + 32 :: nat)" if "of_char c \<le> (90::nat)"
    using that by (simp add: of_char_of)
  then show ?thesis by (auto simp: char_to_lowercase_def Let_def)
qed

lemma to_lowercase_idem [simp]: "to_lowercase (to_lowercase s) = to_lowercase s"
  by (simp add: to_lowercase_def)

lemma to_lowercase_append [simp]: "to_lowercase (xs @ ys) = to_lowercase xs @ to_lowercase ys"
  by (simp add: to_lowercase_def)

lemma to_lowercase_simps:
  "to_lowercase [] = []" "to_lowercase (c # cs) = char_to_lowercase c # to_lowercase cs"
  by (simp_all add: to_lowercase_def)

text \<open>
  C32: the USD/USDT-aware rendering preserves case: lowercasing its output is rendering
  the lowercased instrument, so an instrument given in capitals (\<open>--base BTC --quote USD\<close>)
  gives the mixed-case stream name \<open>BTCUSDt\<close>.
\<close>

theorem get_symbol_compact_usdt_case:
  "to_lowercase (get_symbol_compact_usdt i)
     = get_symbol_compact_usdt \<lparr>quote = to_lowercase (quote i), base = to_lowercase (base i)\<rparr>
   \<and> get_symbol_compact_usdt \<lparr>quote = ''USD'', base = ''BTC''\<rparr> = ''BTCUSDt''"
proof -
  have t: "char_to_lowercase CHR ''t'' = CHR ''t''" by (simp add: char_to_lowercase_def)
  have "to_lowercase (get_symbol_compact_usdt i)
     = get_symbol_compact_usdt \<lparr>quote = to_lowercase (quote i), base = to_lowercase (base i)\<rparr>"
    using t by (simp add: get_symbol_compact_usdt_def to_lowercase_simps)
  moreover have "get_symbol_compact_usdt \<lparr>quote = ''USD'', base = ''BTC''\<rparr> = ''BTCUSDt''"
    by code_simp
  ultimately show ?thesis by blast
qed

end
