(* ===== verification/Numbers.thy ===== *)
theory Numbers
  imports Model
begin

text \<open>
  The numeric string fields of the exchange messages. Bitstamp sends \<open>timestamp\<close> and
  \<open>microtimestamp\<close> as JSON strings, read by \<open>de_usize_from_str\<close>
  (\<^verbatim>\<open>src/data-streamer/src/model.rs\<close>): \<open>String::deserialize\<close> followed by
  \<open>str::parse::<usize>\<close>, the error mapped to a serde error. \<open>str::parse::<usize>\<close> is
  \<open>usize::from_str_radix(s, 10)\<close> of the standard library, modelled from its documented
  algorithm: empty input is \<open>Empty\<close>; a lone sign is \<open>InvalidDigit\<close>; one leading
  \<open>+\<close> is skipped (a \<open>-\<close> is not, the type being unsigned); the digits are read left to
  right with \<open>checked_mul\<close> and \<open>checked_add\<close>, a non-digit giving \<open>InvalidDigit\<close>
  before the overflow of the same step is reported as \<open>PosOverflow\<close>. The value read so
  far is kept as a \<open>nat\<close> below \<open>2^64\<close>, the checks written out.
\<close>

datatype int_error_kind = Empty | InvalidDigit | PosOverflow

definition to_digit :: "char \<Rightarrow> nat option" where
  "to_digit c = (let n = (of_char c :: nat) in if 48 \<le> n \<and> n \<le> 57 then Some (n - 48) else None)"

fun parse_digits :: "nat \<Rightarrow> string \<Rightarrow> int_error_kind + nat" where
  "parse_digits acc [] = Inr acc"
| "parse_digits acc (c # cs) =
     (case to_digit c of
        None \<Rightarrow> Inl InvalidDigit
      | Some x \<Rightarrow>
          if 2 ^ 64 \<le> acc * 10 then Inl PosOverflow
          else if 2 ^ 64 \<le> acc * 10 + x then Inl PosOverflow
          else parse_digits (acc * 10 + x) cs)"

definition parse_usize :: "string \<Rightarrow> int_error_kind + usize" where
  "parse_usize s =
     (case s of
        [] \<Rightarrow> Inl Empty
      | c # cs \<Rightarrow>
          if (c = CHR ''+'' \<or> c = CHR ''-'') \<and> cs = [] then Inl InvalidDigit
          else map_sum id of_nat (parse_digits 0 (if c = CHR ''+'' then cs else s)))"

text \<open>\<open>de_usize_from_str\<close>: the JSON value must be a string.\<close>

datatype de_error = DeInvalidType | DeCustom int_error_kind

definition de_usize_from_str :: "json \<Rightarrow> de_error + usize" where
  "de_usize_from_str v =
     (case v of JString s \<Rightarrow> map_sum DeCustom id (parse_usize s) | _ \<Rightarrow> Inl DeInvalidType)"

text \<open>\<open>usize\<close>'s \<open>Display\<close>: decimal digits, no sign, no leading zero.\<close>

definition digit_char :: "nat \<Rightarrow> char" where
  "digit_char d = char_of (48 + d)"

fun digits_of :: "nat \<Rightarrow> string" where
  "digits_of n = (if n < 10 then [digit_char n] else digits_of (n div 10) @ [digit_char (n mod 10)])"

declare digits_of.simps [simp del]

definition usize_to_string :: "usize \<Rightarrow> string" where
  "usize_to_string n = digits_of (unat n)"

text \<open>The value of a string of decimal digits, without bound.\<close>

definition decimal_value :: "string \<Rightarrow> nat" where
  "decimal_value ds = foldl (\<lambda>a c. a * 10 + (of_char c - 48)) (0::nat) ds"

definition is_digit :: "char \<Rightarrow> bool" where
  "is_digit c \<longleftrightarrow> 48 \<le> (of_char c :: nat) \<and> (of_char c :: nat) \<le> 57"

subsection \<open>Parsing\<close>

lemma to_digit_digit_char [simp]: "d < 10 \<Longrightarrow> to_digit (digit_char d) = Some d"
  by (simp add: to_digit_def digit_char_def Let_def)

lemma to_digit_Some: "to_digit c = Some x \<longleftrightarrow> is_digit c \<and> x = of_char c - 48"
  by (auto simp: to_digit_def is_digit_def Let_def)

lemma parse_digits_append:
  "parse_digits acc (xs @ ys) = (case parse_digits acc xs of Inl e \<Rightarrow> Inl e | Inr a \<Rightarrow> parse_digits a ys)"
  by (induction acc xs rule: parse_digits.induct) (auto split: option.splits)

lemma digits_of_Cons: "\<exists>d cs. digits_of n = digit_char d # cs \<and> d < 10"
proof (induction n rule: digits_of.induct)
  case (1 n)
  then show ?case by (cases "n < 10") (auto simp: digits_of.simps [of n])
qed

lemma parse_digits_digits_of:
  "acc * 10 ^ length (digits_of n) + n < 2 ^ 64 \<Longrightarrow>
   parse_digits acc (digits_of n) = Inr (acc * 10 ^ length (digits_of n) + n)"
proof (induction n arbitrary: acc rule: digits_of.induct)
  case (1 n)
  show ?case
  proof (cases "n < 10")
    case True
    then show ?thesis using "1.prems" by (simp add: digits_of.simps [of n])
  next
    case False
    let ?L = "length (digits_of (n div 10))"
    have d: "digits_of n = digits_of (n div 10) @ [digit_char (n mod 10)]"
      using False by (simp add: digits_of.simps [of n])
    have n: "n = n div 10 * 10 + n mod 10" by simp
    have b: "acc * 10 ^ ?L * 10 + n < 2 ^ 64" using "1.prems" by (simp add: d mult.assoc mult.commute)
    have ih: "parse_digits acc (digits_of (n div 10)) = Inr (acc * 10 ^ ?L + n div 10)"
      using b by (intro "1.IH" False) linarith
    have e: "(acc * 10 ^ ?L + n div 10) * 10 + n mod 10 = acc * 10 ^ length (digits_of n) + n"
      by (simp add: d algebra_simps)
    show ?thesis
      using "1.prems" ih e by (simp add: d parse_digits_append)
  qed
qed

lemma of_char_digit_char: "d < 10 \<Longrightarrow> of_char (digit_char d) = (48 + d :: nat)"
  by (simp add: digit_char_def of_char_of)

lemma digit_char_not_sign: "d < 10 \<Longrightarrow> digit_char d \<noteq> CHR ''+'' \<and> digit_char d \<noteq> CHR ''-''"
proof
  assume d: "d < 10"
  show "digit_char d \<noteq> CHR ''+''"
  proof
    assume "digit_char d = CHR ''+''"
    then have "of_char (digit_char d) = (43::nat)" by simp
    with of_char_digit_char [OF d] show False by simp
  qed
  show "digit_char d \<noteq> CHR ''-''"
  proof
    assume "digit_char d = CHR ''-''"
    then have "of_char (digit_char d) = (45::nat)" by simp
    with of_char_digit_char [OF d] show False by simp
  qed
qed

lemma parse_usize_digits_of:
  assumes "n < 2 ^ 64" shows "parse_usize (digits_of n) = Inr (of_nat n)"
proof -
  obtain d cs where c: "digits_of n = digit_char d # cs" "d < 10" using digits_of_Cons by blast
  have "parse_digits 0 (digits_of n) = Inr n" using parse_digits_digits_of [of 0 n] assms by simp
  then show ?thesis using c digit_char_not_sign [OF c(2)] by (simp add: parse_usize_def)
qed

lemma foldl_digits_mono: "a \<le> foldl (\<lambda>a c. a * 10 + (of_char c - 48)) (a::nat) cs"
proof (induction cs arbitrary: a)
  case (Cons c cs)
  then show ?case by (metis (no_types, lifting) foldl_Cons le_add1 le_trans mult_le_mono order_refl
      mult.right_neutral one_le_numeral)
qed simp

lemma parse_digits_all_digits:
  assumes "\<forall>c\<in>set ds. is_digit c" "acc < 2 ^ 64"
  shows "parse_digits acc ds =
     (let v = foldl (\<lambda>a c. a * 10 + (of_char c - 48)) acc ds in if v < 2 ^ 64 then Inr v else Inl PosOverflow)"
  using assms
proof (induction ds arbitrary: acc)
  case (Cons c cs)
  let ?f = "\<lambda>a c. a * 10 + (of_char c - 48)"
  have t: "to_digit c = Some (of_char c - 48)" using Cons.prems(1) by (simp add: to_digit_Some)
  have m: "acc * 10 + (of_char c - 48) \<le> foldl ?f (acc * 10 + (of_char c - 48)) cs"
    by (rule foldl_digits_mono)
  show ?case
    using Cons.IH [of "acc * 10 + (of_char c - 48)"] Cons.prems m t by (auto simp: Let_def)
qed simp

lemma is_digit_not_sign: "is_digit c \<Longrightarrow> c \<noteq> CHR ''+'' \<and> c \<noteq> CHR ''-''"
  by (auto simp: is_digit_def)

text \<open>
  C29: reading back what \<open>usize\<close>'s \<open>Display\<close> prints gives the number back:
  \<open>de_usize_from_str\<close> on the JSON string of \<open>n.to_string()\<close> is \<open>Ok(n)\<close>, for every
  \<open>usize\<close>, up to \<open>usize::MAX\<close>.
\<close>

theorem de_usize_from_str_roundtrip: "de_usize_from_str (JString (usize_to_string n)) = Inr n"
proof -
  have "unat n < 2 ^ 64" using unsigned_less [of n] by simp
  then have "parse_usize (digits_of (unat n)) = Inr (of_nat (unat n))" by (rule parse_usize_digits_of)
  then show ?thesis by (simp add: de_usize_from_str_def usize_to_string_def)
qed

text \<open>
  C30: on a JSON string of decimal digits, with or without one leading \<open>+\<close>,
  \<open>de_usize_from_str\<close> gives the decimal value exactly when it is below \<open>2^64\<close>, and
  the \<open>PosOverflow\<close> error otherwise: no value wraps around.
\<close>

theorem de_usize_from_str_digits:
  assumes "ds \<noteq> []" "\<forall>c\<in>set ds. is_digit c"
  shows "de_usize_from_str (JString ds) =
           (if decimal_value ds < 2 ^ 64 then Inr (of_nat (decimal_value ds)) else Inl (DeCustom PosOverflow))
    \<and> de_usize_from_str (JString (CHR ''+'' # ds)) = de_usize_from_str (JString ds)"
proof -
  obtain c cs where ds: "ds = c # cs" using assms(1) by (cases ds) auto
  have ns: "c \<noteq> CHR ''+'' \<and> c \<noteq> CHR ''-''" using assms(2) ds is_digit_not_sign by simp
  have p: "parse_digits 0 ds = (if decimal_value ds < 2 ^ 64 then Inr (decimal_value ds) else Inl PosOverflow)"
    using parse_digits_all_digits [OF assms(2), of 0] by (simp add: decimal_value_def Let_def)
  show ?thesis using p ns by (simp add: de_usize_from_str_def parse_usize_def ds)
qed

theorem de_usize_from_str_digits_witness:
  "de_usize_from_str (JString ''18446744073709551616'') = Inl (DeCustom PosOverflow)"
proof -
  have h: "''18446744073709551616'' \<noteq> []" "\<forall>c\<in>set ''18446744073709551616''. is_digit c"
    by (simp_all add: is_digit_def)
  have "decimal_value ''18446744073709551616'' = 2 ^ 64" by (simp add: decimal_value_def)
  then show ?thesis using de_usize_from_str_digits [OF h] by simp
qed

text \<open>
  C31: the error cases: only the empty string is \<open>Empty\<close>; a leading \<open>-\<close> is always
  \<open>InvalidDigit\<close> (\<open>usize\<close> is unsigned); a JSON number where the exchange is expected
  to send a string is rejected before any parse.
\<close>

theorem parse_usize_errors:
  "(parse_usize s = Inl Empty \<longleftrightarrow> s = [])
   \<and> parse_usize (CHR ''-'' # cs) = Inl InvalidDigit
   \<and> de_usize_from_str (JNumber r) = Inl DeInvalidType"
proof -
  have ne: "map_sum id (of_nat :: nat \<Rightarrow> usize) (parse_digits acc xs) \<noteq> Inl Empty" for acc xs
    by (induction acc xs rule: parse_digits.induct) (auto split: option.splits)
  have e: "parse_usize s = Inl Empty \<longleftrightarrow> s = []"
    using ne by (auto simp: parse_usize_def simp del: parse_digits.simps split: list.splits)
  have "to_digit CHR ''-'' = None" by (simp add: to_digit_def)
  then have "parse_usize (CHR ''-'' # cs) = Inl InvalidDigit" by (simp add: parse_usize_def)
  then show ?thesis using e by (simp add: de_usize_from_str_def)
qed

end
