(* ===== verification/Floats.thy ===== *)
theory Floats
  imports Numbers
begin

text \<open>
  The price and amount fields of \<open>OrderBookLevel\<close> (\<^verbatim>\<open>src/data-streamer/src/model.rs\<close>)
  are JSON strings read by \<open>de_float_from_str\<close>: \<open>String::deserialize\<close> followed by
  \<open>str::parse::<f64>\<close>, the error mapped to a serde error. \<open>str::parse::<f64>\<close> is the
  standard library's \<open>dec2flt\<close>, modelled from its documented grammar and algorithm: an
  empty string is \<open>Empty\<close>; one leading sign is taken, and nothing after it is
  \<open>Invalid\<close>; the rest must be a whole decimal number (digits, an optional \<open>.\<close> and
  digits, at least one digit in all, then an optional \<open>e\<close> or \<open>E\<close> with an optional sign
  and at least one digit, the exponent's digits saturating once it reaches \<open>0x10000\<close>),
  or else \<open>inf\<close>, \<open>infinity\<close> or \<open>nan\<close>, compared after clearing bit 5 of every byte
  (\<open>register &= 0xDFDF..\<close>), that is, in any ASCII case. A number is kept as its sign,
  its decimal mantissa (all digits, unbounded) and its decimal exponent: the library
  rounds this exact value \<open>m * 10^e\<close> to the nearest \<open>f64\<close>, which the real-valued model
  of prices and amounts does not represent (\<open>f64_lit_value\<close> is the exact value).
\<close>

unbundle bit_operations_syntax

datatype float_error_kind = FloatEmpty | FloatInvalid

datatype f64_lit = F64Num bool nat int | F64Inf bool | F64NaN bool

text \<open>\<open>try_parse_digits\<close>: the digits at the front, their value appended to \<open>m\<close>, their count.\<close>

fun take_digits :: "nat \<Rightarrow> string \<Rightarrow> nat \<times> nat \<times> string" where
  "take_digits m [] = (m, 0, [])"
| "take_digits m (c # cs) =
     (case to_digit c of
        None \<Rightarrow> (m, 0, c # cs)
      | Some d \<Rightarrow> (case take_digits (10 * m + d) cs of (m', n, r) \<Rightarrow> (m', Suc n, r)))"

text \<open>\<open>parse_scientific\<close>: the exponent after \<open>e\<close>, saturating at \<open>0x10000\<close>.\<close>

fun sci_digits :: "nat \<Rightarrow> string \<Rightarrow> nat \<times> string" where
  "sci_digits x [] = (x, [])"
| "sci_digits x (c # cs) =
     (case to_digit c of
        None \<Rightarrow> (x, c # cs)
      | Some d \<Rightarrow> sci_digits (if x < 65536 then 10 * x + d else x) cs)"

definition parse_scientific :: "string \<Rightarrow> (int \<times> string) option" where
  "parse_scientific s =
     (let neg = (case s of c # _ \<Rightarrow> c = CHR ''-'' | [] \<Rightarrow> False);
          s' = (case s of c # cs \<Rightarrow> if c = CHR ''-'' \<or> c = CHR ''+'' then cs else s | [] \<Rightarrow> s)
      in case s' of
           c # _ \<Rightarrow> if to_digit c \<noteq> None
                    then (case sci_digits 0 s' of (x, r) \<Rightarrow> Some (if neg then - int x else int x, r))
                    else None
         | [] \<Rightarrow> None)"

text \<open>
  \<open>parse_number\<close> (\<open>parse_partial_number\<close> and the check that it read the whole
  string): the mantissa and the decimal exponent.
\<close>

definition parse_number :: "string \<Rightarrow> (nat \<times> int) option" where
  "parse_number s =
     (case take_digits 0 s of (m1, n1, r1) \<Rightarrow>
      (case (case r1 of c # r \<Rightarrow> if c = CHR ''.'' then take_digits m1 r else (m1, 0, r1) | [] \<Rightarrow> (m1, 0, r1)) of
         (m2, n2, r2) \<Rightarrow>
           if n1 + n2 = 0 then None
           else (case r2 of
                   c # r \<Rightarrow>
                     if c = CHR ''e'' \<or> c = CHR ''E'' then
                       (case parse_scientific r of
                          None \<Rightarrow> None
                        | Some (x, r3) \<Rightarrow> if r3 = [] then Some (m2, x - int n2) else None)
                     else None
                 | [] \<Rightarrow> Some (m2, - int n2))))"

text \<open>\<open>parse_inf_nan\<close>: bit 5 of each byte cleared, then compared with \<open>INF\<close>, \<open>INFINITY\<close>, \<open>NAN\<close>.\<close>

definition ascii_fold :: "char \<Rightarrow> nat" where
  "ascii_fold c = of_char c AND 223"

definition parse_inf_nan :: "string \<Rightarrow> bool \<Rightarrow> f64_lit option" where
  "parse_inf_nan s neg =
     (if length s = 3 \<and> map ascii_fold s = map of_char ''INF'' then Some (F64Inf neg)
      else if length s = 8 \<and> map ascii_fold s = map of_char ''INFINITY'' then Some (F64Inf neg)
      else if length s = 3 \<and> map ascii_fold s = map of_char ''NAN'' then Some (F64NaN neg)
      else None)"

text \<open>\<open>dec2flt\<close>: the sign, then a number or else infinity or NaN.\<close>

definition parse_f64 :: "string \<Rightarrow> float_error_kind + f64_lit" where
  "parse_f64 s =
     (case s of
        [] \<Rightarrow> Inl FloatEmpty
      | c # cs \<Rightarrow>
          (let neg = (c = CHR ''-'');
               b = (if c = CHR ''-'' \<or> c = CHR ''+'' then cs else s)
           in if b = [] then Inl FloatInvalid
              else case parse_number b of
                     Some (m, e) \<Rightarrow> Inr (F64Num neg m e)
                   | None \<Rightarrow> (case parse_inf_nan b neg of Some v \<Rightarrow> Inr v | None \<Rightarrow> Inl FloatInvalid)))"

datatype de_float_error = DeFloatInvalidType | DeFloatCustom float_error_kind

definition de_float_from_str :: "json \<Rightarrow> de_float_error + f64_lit" where
  "de_float_from_str v =
     (case v of JString s \<Rightarrow> map_sum DeFloatCustom id (parse_f64 s) | _ \<Rightarrow> Inl DeFloatInvalidType)"

text \<open>The exact value of a parsed literal, before rounding; infinities and NaN have none.\<close>

definition f64_lit_value :: "f64_lit \<Rightarrow> real option" where
  "f64_lit_value l =
     (case l of
        F64Num neg m e \<Rightarrow>
          Some ((if neg then -1 else 1) * real m * (if 0 \<le> e then 10 ^ nat e else 1 / 10 ^ nat (- e)))
      | _ \<Rightarrow> None)"

section \<open>Reading decimal strings\<close>

lemma ascii_fold_nums: "map ascii_fold ''nan'' = [78, 65, 78]" "map ascii_fold ''inf'' = [73, 78, 70]"
  "map ascii_fold ''infinity'' = [73, 78, 70, 73, 78, 73, 84, 89]"
  by (simp_all add: ascii_fold_def)

lemma digit_ascii_fold: "is_digit c \<Longrightarrow> ascii_fold c < 32"
proof -
  assume "is_digit c"
  then have "of_char c \<in> {48..<58::nat}" by (simp add: is_digit_def)
  also have "{48..<58::nat} = set [48..<58]" by (simp only: set_upt)
  finally show ?thesis by (auto simp: ascii_fold_def)
qed

lemma is_digit_special [simp]: "\<not> is_digit CHR ''.''" "\<not> is_digit CHR ''e''" "\<not> is_digit CHR ''E''"
  "\<not> is_digit CHR ''+''" "\<not> is_digit CHR ''-''"
  by (simp_all add: is_digit_def)

lemma to_digit_None: "to_digit c = None \<longleftrightarrow> \<not> is_digit c"
  by (auto simp: to_digit_def is_digit_def Let_def)

lemma to_digit_not_digit: "\<not> is_digit c \<Longrightarrow> to_digit c = None"
  by (simp add: to_digit_None)

lemma take_digits_digits:
  assumes "\<forall>c\<in>set ds. is_digit c" "case r of [] \<Rightarrow> True | c # _ \<Rightarrow> \<not> is_digit c"
  shows "take_digits m (ds @ r) = (foldl (\<lambda>a c. a * 10 + (of_char c - 48)) m ds, length ds, r)"
  using assms
proof (induction ds arbitrary: m)
  case Nil
  then show ?case by (cases r) (simp_all add: to_digit_not_digit)
next
  case (Cons c cs)
  have "to_digit c = Some (of_char c - 48)" using Cons.prems(1) by (simp add: to_digit_Some)
  then show ?case using Cons.IH [of "10 * m + (of_char c - 48)"] Cons.prems by (simp add: mult.commute)
qed

lemma foldl_digits_less:
  "\<forall>c\<in>set ds. is_digit c \<Longrightarrow> foldl (\<lambda>a c. a * 10 + (of_char c - 48)) (x::nat) ds < (x + 1) * 10 ^ length ds"
proof (induction ds arbitrary: x)
  case (Cons c cs)
  let ?d = "of_char c - 48 :: nat"
  have "?d \<le> 9" using Cons.prems by (simp add: is_digit_def) linarith
  then have "(x * 10 + ?d + 1) * 10 ^ length cs \<le> (x * 10 + 10) * 10 ^ length cs"
    by (intro mult_le_mono1) simp
  also have "\<dots> = (x + 1) * 10 ^ length (c # cs)" by (simp add: algebra_simps)
  finally have "(x * 10 + ?d + 1) * 10 ^ length cs \<le> (x + 1) * 10 ^ length (c # cs)" .
  then show ?case using Cons.IH [of "x * 10 + (of_char c - 48)"] Cons.prems by simp
qed simp

lemma sci_digits_digits:
  assumes "\<forall>c\<in>set ds. is_digit c" "case r of [] \<Rightarrow> True | c # _ \<Rightarrow> \<not> is_digit c"
    and "foldl (\<lambda>a c. a * 10 + (of_char c - 48)) x ds < 655360"
  shows "sci_digits x (ds @ r) = (foldl (\<lambda>a c. a * 10 + (of_char c - 48)) x ds, r)"
  using assms
proof (induction ds arbitrary: x)
  case Nil
  then show ?case by (cases r) (simp_all add: to_digit_not_digit)
next
  case (Cons c cs)
  let ?x = "x * 10 + (of_char c - 48)"
  have t: "to_digit c = Some (of_char c - 48)" using Cons.prems(1) by (simp add: to_digit_Some)
  have "?x \<le> foldl (\<lambda>a c. a * 10 + (of_char c - 48)) ?x cs" by (rule foldl_digits_mono)
  then have "x < 65536" using Cons.prems(3) by simp
  then show ?case using Cons.IH [of ?x] Cons.prems t by (simp add: mult.commute)
qed

lemma parse_f64_signed:
  assumes "sg \<in> {[], ''+'', ''-''}" "b \<noteq> []" "hd b \<noteq> CHR ''+''" "hd b \<noteq> CHR ''-''"
  shows "parse_f64 (sg @ b) =
     (case parse_number b of
        Some (m, e) \<Rightarrow> Inr (F64Num (sg = ''-'') m e)
      | None \<Rightarrow> (case parse_inf_nan b (sg = ''-'') of Some v \<Rightarrow> Inr v | None \<Rightarrow> Inl FloatInvalid))"
proof -
  obtain c cs where b: "b = c # cs" using assms(2) by (cases b) auto
  from assms(1) consider "sg = []" | "sg = ''+''" | "sg = ''-''" by blast
  then show ?thesis using assms(3,4) by cases (simp_all add: b parse_f64_def Let_def split: option.split)
qed

lemma decimal_value_append: "decimal_value (xs @ ys) = foldl (\<lambda>a c. a * 10 + (of_char c - 48)) (decimal_value xs) ys"
  by (simp add: decimal_value_def)

lemma take_digits_all:
  "\<forall>c\<in>set ds. is_digit c \<Longrightarrow> take_digits m ds = (foldl (\<lambda>a c. a * 10 + (of_char c - 48)) m ds, length ds, [])"
  using take_digits_digits [of ds "[]" m] by simp

lemma parse_scientific_digits:
  assumes "ed \<noteq> []" "\<forall>c\<in>set ed. is_digit c" "length ed \<le> 4"
  shows "parse_scientific ed = Some (int (decimal_value ed), [])"
proof -
  obtain d ds where e: "ed = d # ds" using assms(1) by (cases ed) auto
  have "decimal_value ed < 10 ^ length ed"
    using foldl_digits_less [OF assms(2), of 0] by (simp add: decimal_value_def)
  also have "(10::nat) ^ length ed \<le> 10 ^ 4" using assms(3) by (intro power_increasing) simp_all
  finally have "decimal_value ed < 655360" by simp
  then have s: "sci_digits 0 ed = (decimal_value ed, [])"
    using sci_digits_digits [OF assms(2), of "[]" 0] by (simp add: decimal_value_def)
  have "is_digit d" using assms(2) e by simp
  then have "d \<noteq> CHR ''-'' \<and> d \<noteq> CHR ''+'' \<and> to_digit d \<noteq> None"
    by (auto simp: is_digit_not_sign to_digit_None)
  then show ?thesis using s by (simp add: parse_scientific_def e)
qed

lemma parse_number_decimal:
  assumes "\<forall>c\<in>set ip. is_digit c" "\<forall>c\<in>set fp. is_digit c" "ip @ fp \<noteq> []"
  shows "parse_number (ip @ CHR ''.'' # fp) = Some (decimal_value (ip @ fp), - int (length fp))"
    and "ed \<noteq> [] \<Longrightarrow> \<forall>c\<in>set ed. is_digit c \<Longrightarrow> length ed \<le> 4 \<Longrightarrow>
         parse_number (ip @ CHR ''.'' # fp @ CHR ''e'' # ed) =
           Some (decimal_value (ip @ fp), int (decimal_value ed) - int (length fp))"
proof -
  have i: "take_digits 0 (ip @ CHR ''.'' # r) = (decimal_value ip, length ip, CHR ''.'' # r)" for r
    using take_digits_digits [OF assms(1), of "CHR ''.'' # r" 0] by (simp add: decimal_value_def)
  have n: "length ip + length fp \<noteq> 0" using assms(3) by simp
  show "parse_number (ip @ CHR ''.'' # fp) = Some (decimal_value (ip @ fp), - int (length fp))"
    using n i [of fp] take_digits_all [OF assms(2), of "decimal_value ip"]
    by (simp add: parse_number_def decimal_value_append)
  assume e: "ed \<noteq> []" "\<forall>c\<in>set ed. is_digit c" "length ed \<le> 4"
  have f: "take_digits (decimal_value ip) (fp @ CHR ''e'' # ed) =
      (decimal_value (ip @ fp), length fp, CHR ''e'' # ed)"
    using take_digits_digits [OF assms(2), of "CHR ''e'' # ed" "decimal_value ip"]
    by (simp add: decimal_value_append)
  show "parse_number (ip @ CHR ''.'' # fp @ CHR ''e'' # ed) =
      Some (decimal_value (ip @ fp), int (decimal_value ed) - int (length fp))"
    using n i [of "fp @ CHR ''e'' # ed"] f parse_scientific_digits [OF e]
    by (simp add: parse_number_def)
qed

lemma parse_number_integer:
  assumes "ip \<noteq> []" "\<forall>c\<in>set ip. is_digit c"
  shows "parse_number ip = Some (decimal_value ip, 0)"
  using assms take_digits_all [OF assms(2), of 0] by (simp add: parse_number_def decimal_value_def)

text \<open>
  C11: a decimal string, as the exchanges send prices and amounts, with an optional sign,
  digits, a point and digits (at least one digit in all), is read as its exact decimal
  value: the mantissa of all its digits and the exponent minus the number of digits after
  the point, before the library rounds it to the nearest \<open>f64\<close>; an exponent of up to
  four digits after \<open>e\<close> is added to it; a string of digits alone is an integer.
\<close>

theorem de_float_from_str_decimal:
  assumes "sg \<in> {[], ''+'', ''-''}" "\<forall>c\<in>set ip. is_digit c" "\<forall>c\<in>set fp. is_digit c" "ip @ fp \<noteq> []"
  shows "de_float_from_str (JString (sg @ ip @ CHR ''.'' # fp)) =
           Inr (F64Num (sg = ''-'') (decimal_value (ip @ fp)) (- int (length fp)))
    \<and> f64_lit_value (F64Num (sg = ''-'') (decimal_value (ip @ fp)) (- int (length fp))) =
           Some ((if sg = ''-'' then -1 else 1) * real (decimal_value (ip @ fp)) / 10 ^ length fp)
    \<and> (\<forall>ed. ed \<noteq> [] \<and> (\<forall>c\<in>set ed. is_digit c) \<and> length ed \<le> 4 \<longrightarrow>
         de_float_from_str (JString (sg @ ip @ CHR ''.'' # fp @ CHR ''e'' # ed)) =
           Inr (F64Num (sg = ''-'') (decimal_value (ip @ fp)) (int (decimal_value ed) - int (length fp))))
    \<and> (ip \<noteq> [] \<longrightarrow> de_float_from_str (JString (sg @ ip)) = Inr (F64Num (sg = ''-'') (decimal_value ip) 0))"
proof -
  have hd_ok: "hd (ip @ r) \<noteq> CHR ''+'' \<and> hd (ip @ r) \<noteq> CHR ''-''"
    if "ip @ r \<noteq> []" "r = [] \<or> hd r = CHR ''.''" for r
    using that assms(2) by (cases ip) (auto simp: is_digit_not_sign)
  have p: "de_float_from_str (JString (sg @ ip @ CHR ''.'' # r)) =
      (case parse_number (ip @ CHR ''.'' # r) of Some (m, e) \<Rightarrow> Inr (F64Num (sg = ''-'') m e)
       | None \<Rightarrow> map_sum DeFloatCustom id
                  (case parse_inf_nan (ip @ CHR ''.'' # r) (sg = ''-'') of Some v \<Rightarrow> Inr v | None \<Rightarrow> Inl FloatInvalid))" for r
    using parse_f64_signed [OF assms(1), of "ip @ CHR ''.'' # r"] hd_ok [of "CHR ''.'' # r"]
    by (simp add: de_float_from_str_def split: option.split)
  have v: "f64_lit_value (F64Num (sg = ''-'') (decimal_value (ip @ fp)) (- int (length fp))) =
           Some ((if sg = ''-'' then -1 else 1) * real (decimal_value (ip @ fp)) / 10 ^ length fp)"
    by (cases "fp = []") (simp_all add: f64_lit_value_def)
  have int: "de_float_from_str (JString (sg @ ip)) = Inr (F64Num (sg = ''-'') (decimal_value ip) 0)"
    if "ip \<noteq> []"
    using parse_f64_signed [OF assms(1), of ip] hd_ok [of "[]"] that parse_number_integer [OF that assms(2)]
    by (simp add: de_float_from_str_def)
  show ?thesis
    using p [of fp] p [of "fp @ CHR ''e'' # _"] parse_number_decimal [OF assms(2-4)] v int
    by simp
qed

theorem de_float_from_str_decimal_witness:
  "de_float_from_str (JString ''-0.0150'') = Inr (F64Num True 150 (-4))
   \<and> f64_lit_value (F64Num True 150 (-4)) = Some (- 0.015)"
proof -
  have h: "''-'' \<in> {[], ''+'', ''-''}" "\<forall>c\<in>set ''0''. is_digit c" "\<forall>c\<in>set ''0150''. is_digit c"
    "''0'' @ ''0150'' \<noteq> []"
    by (simp_all add: is_digit_def)
  have d: "decimal_value ''00150'' = 150" by (simp add: decimal_value_def)
  show ?thesis using de_float_from_str_decimal [OF h] by (simp add: d)
qed

lemma parse_number_letter:
  assumes "s = c # cs" "\<not> is_digit c" "c \<noteq> CHR ''.''"
  shows "parse_number s = None"
  using assms by (simp add: parse_number_def to_digit_not_digit)

text \<open>
  C34: \<open>de_float_from_str\<close> also accepts \<open>inf\<close>, \<open>infinity\<close> and \<open>nan\<close> in any ASCII case,
  with or without a sign, as values with no finite value (an exchange sending
  \<open>"NaN"\<close> gets a NaN price or amount past the parse); an empty string is \<open>Empty\<close> and
  a lone sign \<open>Invalid\<close>.
\<close>

theorem de_float_from_str_non_finite:
  assumes "sg \<in> {[], ''+'', ''-''}"
    and "map ascii_fold u = map ascii_fold ''nan'' \<or> map ascii_fold u = map ascii_fold ''inf''
         \<or> map ascii_fold u = map ascii_fold ''infinity''"
  shows "(\<exists>v. de_float_from_str (JString (sg @ u)) = Inr v \<and> f64_lit_value v = None
            \<and> (v = F64NaN (sg = ''-'') \<longleftrightarrow> map ascii_fold u = map ascii_fold ''nan''))
    \<and> de_float_from_str (JString sg) = Inl (DeFloatCustom (if sg = [] then FloatEmpty else FloatInvalid))"
proof -
  have m: "map ascii_fold u = [78, 65, 78] \<or> map ascii_fold u = [73, 78, 70]
      \<or> map ascii_fold u = [73, 78, 70, 73, 78, 73, 84, 89]"
    using assms(2) by (simp only: ascii_fold_nums)
  then obtain c cs where u: "u = c # cs" by (cases u) auto
  have fc: "ascii_fold c = 78 \<or> ascii_fold c = 73" using m by (auto simp: u)
  have nd: "\<not> is_digit c" using fc digit_ascii_fold by fastforce
  have c: "c \<noteq> CHR ''.'' \<and> c \<noteq> CHR ''+'' \<and> c \<noteq> CHR ''-''" using fc by (auto simp: ascii_fold_def)
  have pn: "parse_number u = None" using parse_number_letter [OF u nd] c by simp
  have p: "de_float_from_str (JString (sg @ u)) =
      (case parse_inf_nan u (sg = ''-'') of Some v \<Rightarrow> Inr v | None \<Rightarrow> Inl (DeFloatCustom FloatInvalid))"
    using parse_f64_signed [OF assms(1), of u] u c pn
    by (simp add: de_float_from_str_def split: option.split)
  have l: "length u = length (map ascii_fold u)" by simp
  have "parse_inf_nan u (sg = ''-'') =
      Some (if map ascii_fold u = [78, 65, 78] then F64NaN (sg = ''-'') else F64Inf (sg = ''-''))"
    using m l by (auto simp: parse_inf_nan_def simp del: length_map)
  then have "\<exists>v. de_float_from_str (JString (sg @ u)) = Inr v \<and> f64_lit_value v = None
            \<and> (v = F64NaN (sg = ''-'') \<longleftrightarrow> map ascii_fold u = map ascii_fold ''nan'')"
    using p by (simp add: f64_lit_value_def ascii_fold_def)
  moreover have "de_float_from_str (JString sg) = Inl (DeFloatCustom (if sg = [] then FloatEmpty else FloatInvalid))"
    using assms(1) by (auto simp: de_float_from_str_def parse_f64_def)
  ultimately show ?thesis by blast
qed

theorem de_float_from_str_non_finite_witness:
  "de_float_from_str (JString ''-NaN'') = Inr (F64NaN True)
   \<and> de_float_from_str (JString ''+'') = Inl (DeFloatCustom FloatInvalid)"
proof -
  have h: "''-'' \<in> {[], ''+'', ''-''}"
    "map ascii_fold ''NaN'' = map ascii_fold ''nan'' \<or> map ascii_fold ''NaN'' = map ascii_fold ''inf''
     \<or> map ascii_fold ''NaN'' = map ascii_fold ''infinity''"
    by (simp_all add: ascii_fold_def)
  have "de_float_from_str (JString (''-'' @ ''NaN'')) = Inr (F64NaN True)"
    using conjunct1 [OF de_float_from_str_non_finite [OF h]] by (auto simp: ascii_fold_def)
  moreover have "de_float_from_str (JString ''+'') = Inl (DeFloatCustom FloatInvalid)"
    using de_float_from_str_non_finite [of "''+''" "''nan''"] by simp
  ultimately show ?thesis by simp
qed

end
