(* ===== verification/Storage.thy ===== *)
theory Storage
  imports Model
begin

text \<open>
  The aggregation state of the server (\<^verbatim>\<open>src/server/src/lib.rs\<close>,
  \<open>OrderbookStorage\<close>): the latest order book per exchange, and \<open>merge\<close>, which
  tags every stored level with its exchange, sorts the bids by price descending and the
  asks by price ascending (ties by amount descending), keeps the best ten of each side and
  computes the spread. The gRPC message types \<open>Level\<close> and \<open>Summary\<close> are generated
  from the protocol definition; their fields are the ones the code reads and writes.
\<close>

subsection \<open>Summary messages\<close>

record level =
  lvl_exchange :: string
  lvl_price :: real
  lvl_amount :: real

record summary =
  spread :: real
  summary_bids :: "level list"
  summary_asks :: "level list"

text \<open>\<open>impl From<(f64, Vec<Level>, Vec<Level>)> for Summary\<close>.\<close>

definition summary_from :: "real \<times> level list \<times> level list \<Rightarrow> summary" where
  "summary_from r = (case r of (sp, mb, ma) \<Rightarrow> \<lparr>spread = sp, summary_bids = mb, summary_asks = ma\<rparr>)"

subsection \<open>The storage\<close>

record orderbook_storage =
  data :: "exchange \<rightharpoonup> order_book"

definition storage_new :: orderbook_storage where
  "storage_new = \<lparr>data = Map.empty\<rparr>"

definition storage_update :: "orderbook_storage \<Rightarrow> exchange \<Rightarrow> order_book \<Rightarrow> orderbook_storage" where
  "storage_update s ex ob = s\<lparr>data := (data s)(ex \<mapsto> ob)\<rparr>"

definition storage_get :: "orderbook_storage \<Rightarrow> exchange \<Rightarrow> order_book option" where
  "storage_get s ex = data s ex"

text \<open>
  \<open>self.data.clone().into_iter()\<close> visits the entries of a \<open>HashMap\<close> in an order
  fixed by its hasher's random keys and its insertion history: the model takes that order
  as an argument, a list of the map's keys, each once (\<open>hashmap_order\<close>).
\<close>

definition hashmap_order :: "orderbook_storage \<Rightarrow> exchange list \<Rightarrow> bool" where
  "hashmap_order s order \<longleftrightarrow> distinct order \<and> set order = dom (data s)"

definition hashmap_entries :: "orderbook_storage \<Rightarrow> exchange list \<Rightarrow> (exchange \<times> order_book) list" where
  "hashmap_entries s order = List.map_filter (\<lambda>e. map_option (Pair e) (data s e)) order"

subsection \<open>Merging\<close>

text \<open>The closure \<open>|level| Level { exchange: ex.to_string(), price, amount }\<close>.\<close>

definition tag_levels :: "exchange \<Rightarrow> order_book_level list \<Rightarrow> level list" where
  "tag_levels ex ls =
     map (\<lambda>l. \<lparr>lvl_exchange = exchange_to_string ex, lvl_price = price l, lvl_amount = amount l\<rparr>) ls"

text \<open>The \<open>for (ex, ob)\<close> loop of \<open>merge\<close>, appending each entry's tagged sides.\<close>

fun merge_collect ::
  "level list \<Rightarrow> level list \<Rightarrow> (exchange \<times> order_book) list \<Rightarrow> level list \<times> level list" where
  "merge_collect mb ma [] = (mb, ma)"
| "merge_collect mb ma ((ex, ob) # es) =
     merge_collect (mb @ tag_levels ex (bids ob)) (ma @ tag_levels ex (asks ob)) es"

text \<open>The sort keys \<open>(FloatOrd(-price), FloatOrd(-amount))\<close> and
  \<open>(FloatOrd(price), FloatOrd(-amount))\<close>, compared lexicographically.\<close>

definition bid_key :: "level \<Rightarrow> real \<times> real" where
  "bid_key l = (- lvl_price l, - lvl_amount l)"

definition ask_key :: "level \<Rightarrow> real \<times> real" where
  "ask_key l = (lvl_price l, - lvl_amount l)"

text \<open>
  \<open>merge_by sort_bids sort_asks\<close> is \<open>OrderbookStorage::merge\<close> with the two calls of
  \<open>sort_unstable_by_key\<close> as arguments, since an unstable sort fixes the order of equal
  keys only by its implementation. \<open>merged_asks[0]\<close> is read before \<open>merged_bids[0]\<close>;
  either panics on an empty side.
\<close>

definition merge_by ::
  "(level list \<Rightarrow> level list) \<Rightarrow> (level list \<Rightarrow> level list) \<Rightarrow>
   orderbook_storage \<Rightarrow> exchange list \<Rightarrow> panic + real \<times> level list \<times> level list" where
  "merge_by sort_bids sort_asks s order =
     (case merge_collect [] [] (hashmap_entries s order) of (merged_bids, merged_asks) \<Rightarrow>
      let mb = take 10 (sort_bids merged_bids);
          ma = take 10 (sort_asks merged_asks)
      in (case vec_index ma 0 of
            Inl p \<Rightarrow> Inl p
          | Inr best_ask \<Rightarrow>
              (case vec_index mb 0 of
                 Inl p \<Rightarrow> Inl p
               | Inr best_bid \<Rightarrow> Inr (lvl_price best_ask - lvl_price best_bid, mb, ma))))"

definition merge :: "orderbook_storage \<Rightarrow> exchange list \<Rightarrow> panic + real \<times> level list \<times> level list" where
  "merge = merge_by (sort_key bid_key) (sort_key ask_key)"

subsection \<open>Abstract view of the merge\<close>

text \<open>
  The tagged levels of one side of a list of entries, in the order of the loop, and the
  same levels as a multiset over the whole storage: the latter does not depend on the
  iteration order and is the abstract input of the merge.
\<close>

definition side_levels ::
  "(order_book \<Rightarrow> order_book_level list) \<Rightarrow> (exchange \<times> order_book) list \<Rightarrow> level list" where
  "side_levels side es = concat (map (\<lambda>(e, ob). tag_levels e (side ob)) es)"

definition stored_side ::
  "(order_book \<Rightarrow> order_book_level list) \<Rightarrow> orderbook_storage \<Rightarrow> level multiset" where
  "stored_side side s = (\<Sum>e\<in>dom (data s). mset (tag_levels e (side (the (data s e)))))"

text \<open>What two merge results must agree on when ties may be ordered differently: the
  outcome, the spread and the key sequence of each side.\<close>

definition merge_keys ::
  "panic + real \<times> level list \<times> level list \<Rightarrow> panic + real \<times> (real \<times> real) list \<times> (real \<times> real) list" where
  "merge_keys r = map_sum id (\<lambda>(sp, mb, ma). (sp, map bid_key mb, map ask_key ma)) r"

subsection \<open>Example data\<close>

text \<open>The two-exchange scenario of the specification (section 8): exchange A is Binance,
  exchange B is Bitstamp.\<close>

definition example_binance_book :: order_book where
  "example_binance_book =
     \<lparr>exchange = Binance, sequence = 1, instrument = ''btcusd'',
      bids = [\<lparr>price = 100.0, amount = 2.0\<rparr>], asks = [\<lparr>price = 101.0, amount = 1.0\<rparr>]\<rparr>"

definition example_bitstamp_book :: order_book where
  "example_bitstamp_book =
     \<lparr>exchange = Bitstamp, sequence = 1, instrument = ''btcusd'',
      bids = [\<lparr>price = 100.5, amount = 1.0\<rparr>], asks = [\<lparr>price = 100.8, amount = 0.5\<rparr>]\<rparr>"

definition example_storage :: orderbook_storage where
  "example_storage =
     storage_update (storage_update storage_new Binance example_binance_book) Bitstamp example_bitstamp_book"

definition example_summary_bids :: "level list" where
  "example_summary_bids =
     [\<lparr>lvl_exchange = ''Bitstamp'', lvl_price = 100.5, lvl_amount = 1.0\<rparr>,
      \<lparr>lvl_exchange = ''Binance'', lvl_price = 100.0, lvl_amount = 2.0\<rparr>]"

definition example_summary_asks :: "level list" where
  "example_summary_asks =
     [\<lparr>lvl_exchange = ''Bitstamp'', lvl_price = 100.8, lvl_amount = 0.5\<rparr>,
      \<lparr>lvl_exchange = ''Binance'', lvl_price = 101.0, lvl_amount = 1.0\<rparr>]"

text \<open>Two exchanges quoting the same bid and ask with the same amounts.\<close>

definition example_tie_storage :: orderbook_storage where
  "example_tie_storage =
     storage_update (storage_update storage_new Binance example_binance_book) Bitstamp
       (example_binance_book\<lparr>exchange := Bitstamp\<rparr>)"

subsection \<open>The loop and the entries\<close>

text \<open>
  Every storage has an iteration order that the \<open>HashMap\<close> may use, its keys in
  ascending order, so the merge theorems below, stated for every valid order, speak of
  every storage.
\<close>

lemma hashmap_order_sorted_keys: "hashmap_order s (sorted_list_of_set (dom (data s)))"
  by (simp add: hashmap_order_def)

lemma merge_collect_eq:
  "merge_collect mb ma es = (mb @ side_levels bids es, ma @ side_levels asks es)"
  by (induction mb ma es rule: merge_collect.induct) (auto simp: side_levels_def)

lemma hashmap_entries_order:
  assumes "hashmap_order s order"
  shows "hashmap_entries s order = map (\<lambda>e. (e, the (data s e))) order"
proof -
  have "set order \<subseteq> dom (data s) \<Longrightarrow> hashmap_entries s order = map (\<lambda>e. (e, the (data s e))) order"
    by (induction order) (auto simp: hashmap_entries_def map_filter_simps)
  with assms show ?thesis by (simp add: hashmap_order_def)
qed

lemma mset_side_levels:
  assumes "hashmap_order s order"
  shows "mset (side_levels side (hashmap_entries s order)) = stored_side side s"
proof -
  from assms have d: "distinct order" and st: "set order = dom (data s)"
    by (simp_all add: hashmap_order_def)
  have "mset (side_levels side (hashmap_entries s order)) =
        sum_list (map (\<lambda>e. mset (tag_levels e (side (the (data s e))))) order)"
    using assms by (simp add: hashmap_entries_order side_levels_def mset_concat comp_def)
  also have "\<dots> = (\<Sum>e\<in>set order. mset (tag_levels e (side (the (data s e)))))"
    using d by (rule sum.distinct_set_conv_list [symmetric])
  finally show ?thesis by (simp add: st stored_side_def)
qed

lemma stored_side_empty_iff:
  assumes "hashmap_order s order"
  shows "stored_side side s = {#} \<longleftrightarrow> (\<forall>e ob. data s e = Some ob \<longrightarrow> side ob = [])"
  using assms
  by (force simp: mset_side_levels [symmetric] side_levels_def hashmap_entries_order
      hashmap_order_def tag_levels_def)

lemma side_levels_Nil_iff:
  assumes "hashmap_order s order"
  shows "side_levels side (hashmap_entries s order) = [] \<longleftrightarrow> (\<forall>e ob. data s e = Some ob \<longrightarrow> side ob = [])"
  using stored_side_empty_iff [OF assms] mset_side_levels [OF assms] by (metis mset_zero_iff)

lemma set_side_levels:
  "hashmap_order s order \<Longrightarrow> set (side_levels side (hashmap_entries s order)) = set_mset (stored_side side s)"
  by (metis mset_side_levels set_mset_mset)

text \<open>\<open>merge_by\<close> without the loop and the index checks: both sides truncated, the
  panic when one of them is empty, otherwise the spread of the two heads.\<close>

lemma merge_by_eq:
  "merge_by sb sa s order =
     (let mb = take 10 (sb (side_levels bids (hashmap_entries s order)));
          ma = take 10 (sa (side_levels asks (hashmap_entries s order)))
      in if ma = [] then Inl (PanicIndex 0 0)
         else if mb = [] then Inl (PanicIndex 0 0)
         else Inr (lvl_price (hd ma) - lvl_price (hd mb), mb, ma))"
  by (simp add: merge_by_def merge_collect_eq Let_def vec_index_def hd_conv_nth)

lemma merge_by_InrD:
  assumes "merge_by sb sa s order = Inr (sp, mb, ma)"
  shows "mb = take 10 (sb (side_levels bids (hashmap_entries s order)))"
    and "ma = take 10 (sa (side_levels asks (hashmap_entries s order)))"
    and "mb \<noteq> [] \<and> ma \<noteq> [] \<and> sp = lvl_price (hd ma) - lvl_price (hd mb)"
  using assms by (auto simp: merge_by_eq Let_def split: if_splits)

subsection \<open>Best prices\<close>

lemma hd_ask_price_Min:
  assumes "is_sort_by_key ask_key sa" and "xs \<noteq> []"
  shows "lvl_price (hd (sa xs)) = Min (lvl_price ` set xs)"
proof (rule Min_eqI [symmetric])
  have s: "sorted (map ask_key (sa xs))" using assms(1) by (simp add: sort_by_key_keys)
  show "finite (lvl_price ` set xs)" by simp
  show "lvl_price (hd (sa xs)) \<le> y" if "y \<in> lvl_price ` set xs" for y
  proof -
    from that obtain l where l: "l \<in> set (sa xs)" "y = lvl_price l"
      using assms(1) by (auto simp: sort_by_key_set)
    from sorted_map_hd_le [OF s l(1)] show ?thesis
      by (auto simp: l(2) ask_key_def less_eq_prod_def)
  qed
  show "lvl_price (hd (sa xs)) \<in> lvl_price ` set xs"
    using assms by (metis hd_in_set image_eqI sort_by_key_set sort_by_key_Nil_iff)
qed

lemma hd_bid_price_Max:
  assumes "is_sort_by_key bid_key sb" and "xs \<noteq> []"
  shows "lvl_price (hd (sb xs)) = Max (lvl_price ` set xs)"
proof (rule Max_eqI [symmetric])
  have s: "sorted (map bid_key (sb xs))" using assms(1) by (simp add: sort_by_key_keys)
  show "finite (lvl_price ` set xs)" by simp
  show "y \<le> lvl_price (hd (sb xs))" if "y \<in> lvl_price ` set xs" for y
  proof -
    from that obtain l where l: "l \<in> set (sb xs)" "y = lvl_price l"
      using assms(1) by (auto simp: sort_by_key_set)
    from sorted_map_hd_le [OF s l(1)] show ?thesis
      by (auto simp: l(2) bid_key_def less_eq_prod_def)
  qed
  show "lvl_price (hd (sb xs)) \<in> lvl_price ` set xs"
    using assms by (metis hd_in_set image_eqI sort_by_key_set sort_by_key_Nil_iff)
qed

subsection \<open>The example, evaluated\<close>

lemma example_storage_order: "hashmap_order example_storage [Binance, Bitstamp]"
  by (auto simp: hashmap_order_def example_storage_def storage_update_def storage_new_def)

lemma example_storage_merge:
  "merge_by (sort_key bid_key) (sort_key ask_key) example_storage [Binance, Bitstamp] =
     Inr (0.3, example_summary_bids, example_summary_asks)"
  by (simp add: merge_by_def example_storage_def storage_update_def storage_new_def
      hashmap_entries_def map_filter_simps tag_levels_def example_binance_book_def
      example_bitstamp_book_def bid_key_def ask_key_def vec_index_def less_eq_prod_def
      example_summary_bids_def example_summary_asks_def)

lemma merge_by_Inr_keys:
  assumes "is_sort_by_key bid_key sb" and "is_sort_by_key ask_key sa" and "hashmap_order s order"
    and "merge_by sb sa s order = Inr (sp, mb, ma)"
  shows "map bid_key mb = take 10 (sorted_list_of_multiset (image_mset bid_key (stored_side bids s)))
       \<and> map ask_key ma = take 10 (sorted_list_of_multiset (image_mset ask_key (stored_side asks s)))
       \<and> mset mb \<subseteq># stored_side bids s \<and> mset ma \<subseteq># stored_side asks s"
proof -
  let ?A = "side_levels asks (hashmap_entries s order)" and ?B = "side_levels bids (hashmap_entries s order)"
  note mb = merge_by_InrD(1) [OF assms(4)] and ma = merge_by_InrD(2) [OF assms(4)]
  have kb: "map bid_key mb = take 10 (sort (map bid_key ?B))"
    using assms(1) by (simp add: mb take_map [symmetric] sort_by_key_keys)
  have ka: "map ask_key ma = take 10 (sort (map ask_key ?A))"
    using assms(2) by (simp add: ma take_map [symmetric] sort_by_key_keys)
  have "mset mb \<subseteq># mset ?B" "mset ma \<subseteq># mset ?A"
    using assms(1,2) mset_take_subseteq by (metis mb ma sort_by_key_mset)+
  then show ?thesis
    using kb ka mset_side_levels [OF assms(3)] by (metis sorted_list_of_multiset_mset mset_map)
qed

lemma merge_by_Inr_spread:
  assumes "is_sort_by_key bid_key sb" and "is_sort_by_key ask_key sa" and "hashmap_order s order"
    and "merge_by sb sa s order = Inr (sp, mb, ma)"
  shows "sp = Min (lvl_price ` set_mset (stored_side asks s)) - Max (lvl_price ` set_mset (stored_side bids s))"
proof -
  let ?A = "side_levels asks (hashmap_entries s order)" and ?B = "side_levels bids (hashmap_entries s order)"
  have ne: "?A \<noteq> []" "?B \<noteq> []"
    using merge_by_InrD [OF assms(4)] sort_by_key_Nil_iff [OF assms(1)] sort_by_key_Nil_iff [OF assms(2)]
    by auto
  have sp: "sp = lvl_price (hd (sa ?A)) - lvl_price (hd (sb ?B))"
    using merge_by_InrD [OF assms(4)] by simp
  then show ?thesis
    using hd_ask_price_Min [OF assms(2) ne(1)] hd_bid_price_Max [OF assms(1) ne(2)]
    by (simp add: set_side_levels [OF assms(3)])
qed

lemma merge_by_Inl_iff:
  assumes "is_sort_by_key bid_key sb" and "is_sort_by_key ask_key sa" and "hashmap_order s order"
  shows "merge_by sb sa s order = Inl p \<longleftrightarrow>
           p = PanicIndex 0 0 \<and>
           ((\<forall>e ob. data s e = Some ob \<longrightarrow> asks ob = []) \<or> (\<forall>e ob. data s e = Some ob \<longrightarrow> bids ob = []))"
  using assms by (auto simp: merge_by_eq Let_def sort_by_key_Nil_iff side_levels_Nil_iff)

subsection \<open>Properties of the merge\<close>

text \<open>
  C1. The merge refines its abstract specification: whatever the \<open>HashMap\<close> iteration
  order and whatever sort meets the \<open>sort_unstable_by_key\<close> contract, the published
  bids carry the ten best bid keys (price descending, amount descending) among all stored
  bid levels, the asks the ten best ask keys, and every published level is a stored level
  tagged with the exchange it came from.
\<close>

theorem merge_by_top_levels:
  assumes "is_sort_by_key bid_key sb" and "is_sort_by_key ask_key sa" and "hashmap_order s order"
    and "merge_by sb sa s order = Inr (sp, mb, ma)"
  shows "map bid_key mb = take 10 (sorted_list_of_multiset (image_mset bid_key (stored_side bids s)))
       \<and> map ask_key ma = take 10 (sorted_list_of_multiset (image_mset ask_key (stored_side asks s)))
       \<and> mset mb \<subseteq># stored_side bids s \<and> mset ma \<subseteq># stored_side asks s"
  using assms by (rule merge_by_Inr_keys)

theorem merge_by_top_levels_witness:
  "hashmap_order example_storage [Binance, Bitstamp]
   \<and> merge_by (sort_key bid_key) (sort_key ask_key) example_storage [Binance, Bitstamp] =
       Inr (0.3, example_summary_bids, example_summary_asks)
   \<and> map bid_key example_summary_bids =
       take 10 (sorted_list_of_multiset (image_mset bid_key (stored_side bids example_storage)))
   \<and> mset example_summary_asks \<subseteq># stored_side asks example_storage"
  using merge_by_top_levels [OF is_sort_by_key_sort_key is_sort_by_key_sort_key
      example_storage_order example_storage_merge]
    example_storage_order example_storage_merge
  by blast

text \<open>
  C2. The spread of a published summary is the lowest ask price minus the highest bid
  price over all levels stored for all exchanges.
\<close>

theorem merge_by_spread:
  assumes "is_sort_by_key bid_key sb" and "is_sort_by_key ask_key sa" and "hashmap_order s order"
    and "merge_by sb sa s order = Inr (sp, mb, ma)"
  shows "sp = Min (lvl_price ` set_mset (stored_side asks s)) - Max (lvl_price ` set_mset (stored_side bids s))"
  using assms by (rule merge_by_Inr_spread)

theorem merge_by_spread_witness:
  "hashmap_order example_storage [Binance, Bitstamp]
   \<and> merge_by (sort_key bid_key) (sort_key ask_key) example_storage [Binance, Bitstamp] =
       Inr (0.3, example_summary_bids, example_summary_asks)
   \<and> 0.3 = Min (lvl_price ` set_mset (stored_side asks example_storage))
            - Max (lvl_price ` set_mset (stored_side bids example_storage))"
  using merge_by_spread [OF is_sort_by_key_sort_key is_sort_by_key_sort_key
      example_storage_order example_storage_merge]
    example_storage_order example_storage_merge
  by blast

text \<open>
  C3. Sort correctness: the published bids are non-increasing in price and, at equal
  price, non-increasing in amount; the asks are non-decreasing in price and, at equal
  price, non-increasing in amount.
\<close>

theorem merge_by_sorted:
  assumes "is_sort_by_key bid_key sb" and "is_sort_by_key ask_key sa"
    and "merge_by sb sa s order = Inr (sp, mb, ma)"
  shows "sorted_wrt (\<lambda>x y. lvl_price y < lvl_price x \<or> lvl_price y = lvl_price x \<and> lvl_amount y \<le> lvl_amount x) mb
       \<and> sorted_wrt (\<lambda>x y. lvl_price x < lvl_price y \<or> lvl_price x = lvl_price y \<and> lvl_amount y \<le> lvl_amount x) ma"
proof -
  note mb = merge_by_InrD(1) [OF assms(3)] and ma = merge_by_InrD(2) [OF assms(3)]
  have "sorted (map bid_key mb)" "sorted (map ask_key ma)"
    using assms(1,2) by (simp_all add: mb ma sorted_take_map sort_by_key_keys)
  then show ?thesis
    by (auto simp: sorted_map bid_key_def ask_key_def less_eq_prod_def elim!: sorted_wrt_mono_rel [rotated])
qed

theorem merge_by_sorted_witness:
  "merge_by (sort_key bid_key) (sort_key ask_key) example_storage [Binance, Bitstamp] =
       Inr (0.3, example_summary_bids, example_summary_asks)
   \<and> sorted_wrt (\<lambda>x y. lvl_price y < lvl_price x \<or> lvl_price y = lvl_price x \<and> lvl_amount y \<le> lvl_amount x)
       example_summary_bids"
  using merge_by_sorted [OF is_sort_by_key_sort_key is_sort_by_key_sort_key example_storage_merge]
    example_storage_merge
  by blast

text \<open>
  C4. The merge panics (index out of bounds at \<open>merged_asks[0]\<close> or
  \<open>merged_bids[0]\<close>) exactly when no stored book has an ask or no stored book has a bid;
  in particular on the empty storage, before any update has arrived.
\<close>

theorem merge_by_panic_iff:
  assumes "is_sort_by_key bid_key sb" and "is_sort_by_key ask_key sa" and "hashmap_order s order"
  shows "merge_by sb sa s order = Inl p \<longleftrightarrow>
           p = PanicIndex 0 0 \<and>
           ((\<forall>e ob. data s e = Some ob \<longrightarrow> asks ob = []) \<or> (\<forall>e ob. data s e = Some ob \<longrightarrow> bids ob = []))"
  using assms by (rule merge_by_Inl_iff)

theorem merge_by_panic_iff_witness:
  "hashmap_order storage_new []
   \<and> merge_by (sort_key bid_key) (sort_key ask_key) storage_new [] = Inl (PanicIndex 0 0)"
proof -
  have o: "hashmap_order storage_new []" by (simp add: hashmap_order_def storage_new_def)
  show ?thesis
    using merge_by_panic_iff [OF is_sort_by_key_sort_key is_sort_by_key_sort_key o] o
    by (simp add: storage_new_def)
qed

text \<open>
  C5. Truncation: each side of a published summary has exactly the smaller of ten and the
  number of stored levels of that side, so never more than ten.
\<close>

theorem merge_by_lengths:
  assumes "is_sort_by_key bid_key sb" and "is_sort_by_key ask_key sa" and "hashmap_order s order"
    and "merge_by sb sa s order = Inr (sp, mb, ma)"
  shows "length mb = min 10 (size (stored_side bids s)) \<and> length ma = min 10 (size (stored_side asks s))"
proof -
  have "length (sb (side_levels bids (hashmap_entries s order))) = size (stored_side bids s)"
    "length (sa (side_levels asks (hashmap_entries s order))) = size (stored_side asks s)"
    using assms(1,2) mset_side_levels [OF assms(3)] by (metis size_mset sort_by_key_length)+
  then show ?thesis by (simp add: merge_by_InrD(1,2) [OF assms(4)] min.commute)
qed

theorem merge_by_lengths_witness:
  "merge_by (sort_key bid_key) (sort_key ask_key) example_storage [Binance, Bitstamp] =
       Inr (0.3, example_summary_bids, example_summary_asks)
   \<and> length example_summary_asks = min 10 (size (stored_side asks example_storage))"
  using merge_by_lengths [OF is_sort_by_key_sort_key is_sort_by_key_sort_key
      example_storage_order example_storage_merge]
    example_storage_merge
  by blast

text \<open>
  C6. Merge determinism up to ties: two merges of the same storage, under any two
  iteration orders and any two sorts meeting the contract, agree on the outcome (panic or
  not), on the spread and on the sequence of (price, amount) keys of each side.
\<close>

theorem merge_by_deterministic:
  assumes "is_sort_by_key bid_key sb" and "is_sort_by_key ask_key sa" and "hashmap_order s order"
    and "is_sort_by_key bid_key sb'" and "is_sort_by_key ask_key sa'" and "hashmap_order s order'"
  shows "merge_keys (merge_by sb sa s order) = merge_keys (merge_by sb' sa' s order')"
proof (cases "merge_by sb sa s order")
  case (Inl p)
  with merge_by_Inl_iff [OF assms(1-3)]
  have "merge_by sb sa s order = Inl (PanicIndex 0 0)"
    and "merge_by sb' sa' s order' = Inl (PanicIndex 0 0)"
    using merge_by_Inl_iff [OF assms(4-6)] by blast+
  then show ?thesis by (simp add: merge_keys_def)
next
  case (Inr r)
  then obtain sp mb ma where r: "merge_by sb sa s order = Inr (sp, mb, ma)" by (metis prod_cases3)
  then obtain sp' mb' ma' where r': "merge_by sb' sa' s order' = Inr (sp', mb', ma')"
    using merge_by_Inl_iff [OF assms(1-3)] merge_by_Inl_iff [OF assms(4-6)]
    by (metis prod_cases3 sumE)
  show ?thesis
    using merge_by_Inr_spread [OF assms(1-3) r] merge_by_Inr_spread [OF assms(4-6) r']
      merge_by_Inr_keys [OF assms(1-3) r] merge_by_Inr_keys [OF assms(4-6) r']
    by (simp add: r r' merge_keys_def)
qed

theorem merge_by_deterministic_witness:
  "hashmap_order example_storage [Bitstamp, Binance]
   \<and> merge_keys (merge_by (sort_key bid_key) (sort_key ask_key) example_storage [Binance, Bitstamp]) =
     merge_keys (merge_by (sort_key bid_key) (sort_key ask_key) example_storage [Bitstamp, Binance])"
proof -
  have o: "hashmap_order example_storage [Bitstamp, Binance]"
    using example_storage_order by (auto simp: hashmap_order_def)
  show ?thesis
    using merge_by_deterministic [OF is_sort_by_key_sort_key is_sort_by_key_sort_key example_storage_order
        is_sort_by_key_sort_key is_sort_by_key_sort_key o] o
    by blast
qed

lemma keys_determine_levels:
  assumes "inj_on key S" "mset xs \<subseteq># M" "mset ys \<subseteq># M" "set_mset M \<subseteq> S" "map key xs = map key ys"
  shows "xs = ys"
proof -
  have "set xs \<subseteq> S" "set ys \<subseteq> S"
    using assms(2-4) by (metis set_mset_mset mset_subset_eqD subset_iff)+
  then have "inj_on key (set xs \<union> set ys)" using assms(1) by (simp add: inj_on_subset)
  then show ?thesis using assms(5) by (simp add: inj_on_map_eq_map)
qed

text \<open>
  C25: when no two stored levels of a side share a (price, amount) key, the merge is
  fully determined by the storage: any two iteration orders of the \<open>HashMap\<close> and any
  two sorts meeting the \<open>sort_unstable_by_key\<close> contract give the same result, panic or
  summary, exchange tags included.
\<close>

theorem merge_by_no_ties_unique:
  assumes "is_sort_by_key bid_key sb" and "is_sort_by_key ask_key sa" and "hashmap_order s order"
    and "is_sort_by_key bid_key sb'" and "is_sort_by_key ask_key sa'" and "hashmap_order s order'"
    and "inj_on bid_key (set_mset (stored_side bids s))" and "inj_on ask_key (set_mset (stored_side asks s))"
  shows "merge_by sb sa s order = merge_by sb' sa' s order'"
proof (cases "merge_by sb sa s order")
  case (Inl p)
  with merge_by_Inl_iff [OF assms(1-3)]
  have "merge_by sb sa s order = Inl (PanicIndex 0 0)"
    and "merge_by sb' sa' s order' = Inl (PanicIndex 0 0)"
    using merge_by_Inl_iff [OF assms(4-6)] by blast+
  then show ?thesis by simp
next
  case (Inr r)
  then obtain sp mb ma where r: "merge_by sb sa s order = Inr (sp, mb, ma)" by (metis prod_cases3)
  then obtain sp' mb' ma' where r': "merge_by sb' sa' s order' = Inr (sp', mb', ma')"
    using merge_by_Inl_iff [OF assms(1-3)] merge_by_Inl_iff [OF assms(4-6)]
    by (metis prod_cases3 sumE)
  note k = merge_by_Inr_keys [OF assms(1-3) r] and k' = merge_by_Inr_keys [OF assms(4-6) r']
  have "mb = mb'"
    by (rule keys_determine_levels [OF assms(7) conjunct1 [OF conjunct2 [OF conjunct2 [OF k]]]
          conjunct1 [OF conjunct2 [OF conjunct2 [OF k']]] order_refl]) (use k k' in simp)
  moreover have "ma = ma'"
    by (rule keys_determine_levels [OF assms(8) conjunct2 [OF conjunct2 [OF conjunct2 [OF k]]]
          conjunct2 [OF conjunct2 [OF conjunct2 [OF k']]] order_refl]) (use k k' in simp)
  moreover have "sp = sp'"
    using merge_by_Inr_spread [OF assms(1-3) r] merge_by_Inr_spread [OF assms(4-6) r'] by simp
  ultimately show ?thesis using r r' by simp
qed

theorem merge_by_no_ties_unique_witness:
  "inj_on bid_key (set_mset (stored_side bids example_storage))
   \<and> inj_on ask_key (set_mset (stored_side asks example_storage))
   \<and> merge example_storage [Binance, Bitstamp] = merge example_storage [Bitstamp, Binance]"
proof -
  have o: "hashmap_order example_storage [Bitstamp, Binance]"
    using example_storage_order by (auto simp: hashmap_order_def)
  have ib: "inj_on bid_key (set_mset (stored_side bids example_storage))"
    unfolding set_side_levels [OF example_storage_order, symmetric]
    by (simp add: side_levels_def example_storage_def
        storage_update_def storage_new_def hashmap_entries_def map_filter_simps tag_levels_def
        example_binance_book_def example_bitstamp_book_def bid_key_def)
  have ia: "inj_on ask_key (set_mset (stored_side asks example_storage))"
    unfolding set_side_levels [OF example_storage_order, symmetric]
    by (simp add: side_levels_def example_storage_def
        storage_update_def storage_new_def hashmap_entries_def map_filter_simps tag_levels_def
        example_binance_book_def example_bitstamp_book_def ask_key_def)
  show ?thesis
    using merge_by_no_ties_unique [OF is_sort_by_key_sort_key is_sort_by_key_sort_key example_storage_order
        is_sort_by_key_sort_key is_sort_by_key_sort_key o ib ia] ib ia
    by (simp add: merge_def)
qed

text \<open>
  With a tie the summary is not determined by the storage: when two exchanges quote the
  same (price, amount), the exchange tags of the tied levels follow the iteration order of
  the \<open>HashMap\<close>, which depends on its random hasher keys.
\<close>

theorem merge_tie_depends_on_iteration_order:
  "hashmap_order example_tie_storage [Binance, Bitstamp]
   \<and> hashmap_order example_tie_storage [Bitstamp, Binance]
   \<and> merge example_tie_storage [Binance, Bitstamp] \<noteq> merge example_tie_storage [Bitstamp, Binance]"
  by (auto simp: hashmap_order_def merge_def merge_by_def example_tie_storage_def storage_update_def
      storage_new_def hashmap_entries_def map_filter_simps tag_levels_def example_binance_book_def
      bid_key_def ask_key_def vec_index_def less_eq_prod_def)

end
