(* ===== verification/Connector.thy ===== *)
theory Connector
  imports Model
begin

text \<open>
  The exchange connectors \<open>consume_binance\<close> and \<open>consume_bitstamp\<close>
  (\<^verbatim>\<open>src/data-streamer/src/lib.rs\<close>). Each is a task that loops for ever: connect,
  read frames until the stream ends or fails, sleep for the backoff delay, double it,
  reconnect. The model is a step function per connector on a state (\<open>phase\<close>, \<open>sleep\<close>)
  driven by the results of the task's await points (\<open>conn_input\<close>), each step returning
  the effects the task performs (\<open>effect\<close>): the connection request, frames written,
  snapshots sent to the shared channel, the delay slept. An input that cannot occur in a
  phase makes the step \<open>None\<close>. A panic moves the task to \<open>Dead\<close>, where no input occurs.
  \<open>sleep\<close> is the \<open>u64\<close> of \<open>Duration::from_millis\<close>; \<open>sleep *= 2\<close> wraps around
  as in a release build.
\<close>

subsection \<open>WebSocket frames and the task's interface\<close>

text \<open>\<open>tungstenite::Message\<close>; the payloads of \<open>Close\<close> and \<open>Frame\<close> are not inspected.\<close>

datatype message =
    Text string
  | Binary bytes
  | Ping bytes
  | Pong bytes
  | Close
  | Frame

text \<open>An item of the stream: \<open>Result<Message, tungstenite::Error>\<close>.\<close>

datatype ws_event = WsOk message | WsErr

text \<open>
  The decoders the connectors call: \<open>serde_json::from_str\<close> at the three target types
  (\<open>BinanceOrderBook\<close>, \<open>HashMap<String, Value>\<close>, \<open>BitStampOrderBookWrapper\<close>),
  \<open>None\<close> for a decoding error. They belong to serde; the connectors are proved for any.
\<close>

record decoders =
  decode_binance :: "string \<Rightarrow> binance_order_book option"
  decode_object :: "string \<Rightarrow> (string \<rightharpoonup> json) option"
  decode_bitstamp :: "string \<Rightarrow> bitstamp_order_book_wrapper option"

datatype phase =
    Connecting
  | Subscribing
  | Streaming
  | AwaitPong bytes
  | Backoff
  | Dead panic

type_synonym conn_state = "phase \<times> u64"

text \<open>What an await point returns: the connection attempt, a write, the next item of the
  stream (\<open>None\<close> when it ends), the end of the backoff sleep.\<close>

datatype conn_input =
    ConnectResult bool
  | SendResult bool
  | NextFrame "ws_event option"
  | Wake

datatype effect =
    Connect string
  | Send message
  | Emit order_book
  | Sleep u64

definition initial_sleep :: u64 where
  "initial_sleep = 100"

definition conn_initial :: conn_state where
  "conn_initial = (Connecting, initial_sleep)"

subsection \<open>Binance\<close>

definition binance_url :: "instrument \<Rightarrow> string" where
  "binance_url i = ''wss://stream.binance.com:9443/ws/'' @ get_symbol_compact_usdt i @ ''@depth20@100ms''"

fun binance_step :: "decoders \<Rightarrow> instrument \<Rightarrow> phase \<Rightarrow> u64 \<Rightarrow> conn_input \<Rightarrow> (conn_state \<times> effect list) option" where
  "binance_step d i Connecting sl inp =
     (case inp of
        ConnectResult ok \<Rightarrow>
          Some (if ok then ((Streaming, sl), [Connect (binance_url i)])
                else ((Dead (PanicExpect ''Expected connection with Binance to work''), sl),
                      [Connect (binance_url i)]))
      | _ \<Rightarrow> None)"
| "binance_step d i Streaming sl inp =
     (case inp of
        NextFrame None \<Rightarrow> Some ((Backoff, sl), [])
      | NextFrame (Some WsErr) \<Rightarrow> Some ((Backoff, sl), [])
      | NextFrame (Some (WsOk m)) \<Rightarrow>
          (case m of
             Text msg \<Rightarrow>
               Some (case decode_binance d msg of
                       None \<Rightarrow> ((Dead (PanicExpect ''Can't parse''), sl), [])
                     | Some raw \<Rightarrow> ((Streaming, 100),
                                    [Emit (order_book_from_binance Binance (get_symbol_compact i) raw)]))
           | Binary b \<Rightarrow> Some ((Streaming, 100), [])
           | Ping p \<Rightarrow> Some ((AwaitPong p, sl), [])
           | _ \<Rightarrow> Some ((Streaming, 100), []))
      | _ \<Rightarrow> None)"
| "binance_step d i (AwaitPong p) sl inp =
     (case inp of
        SendResult ok \<Rightarrow>
          Some (if ok then ((Streaming, 100), [Send (Pong p)]) else ((Backoff, sl), [Send (Pong p)]))
      | _ \<Rightarrow> None)"
| "binance_step d i Backoff sl inp =
     (case inp of Wake \<Rightarrow> Some ((Connecting, sl * 2), [Sleep sl]) | _ \<Rightarrow> None)"
| "binance_step d i Subscribing sl inp = None"
| "binance_step d i (Dead p) sl inp = None"

subsection \<open>Bitstamp\<close>

definition bitstamp_url :: string where
  "bitstamp_url = ''wss://ws.bitstamp.net''"

text \<open>\<open>serde_json\<close>'s escaping of a string literal: quote, backslash and the
  control characters, the latter as \<open>\u00XX\<close> with lowercase hex digits.\<close>

definition hex_digit :: "nat \<Rightarrow> char" where
  "hex_digit n = (if n < 10 then char_of (48 + n) else char_of (87 + n))"

definition json_escape_char :: "char \<Rightarrow> string" where
  "json_escape_char c =
     (let n = (of_char c :: nat) in
      if n = 34 then [char_of (92::nat), c]
      else if n = 92 then [c, c]
      else if n = 10 then [char_of (92::nat), CHR ''n'']
      else if n = 13 then [char_of (92::nat), CHR ''r'']
      else if n = 9 then [char_of (92::nat), CHR ''t'']
      else if n = 8 then [char_of (92::nat), CHR ''b'']
      else if n = 12 then [char_of (92::nat), CHR ''f'']
      else if n < 32 then [char_of (92::nat)] @ ''u00'' @ [hex_digit (n div 16), hex_digit (n mod 16)]
      else [c])"

definition json_quote :: "string \<Rightarrow> string" where
  "json_quote s = [char_of (34::nat)] @ concat (map json_escape_char s) @ [char_of (34::nat)]"

text \<open>The subscription request
  \<open>json!({"event": "bts:subscribe", "data": {"channel": ...}}).to_string()\<close>;
  \<open>serde_json::Map\<close> is ordered by key.\<close>

definition bitstamp_subscribe_text :: "instrument \<Rightarrow> string" where
  "bitstamp_subscribe_text i =
     ''{'' @ json_quote ''data'' @ '':{'' @ json_quote ''channel'' @ '':''
       @ json_quote (''order_book_'' @ get_symbol_compact i) @ ''},''
       @ json_quote ''event'' @ '':'' @ json_quote ''bts:subscribe'' @ ''}''"

text \<open>The \<open>Ok(Message::Text(msg))\<close> arm of \<open>consume_bitstamp\<close>: \<open>resp.unwrap()\<close>,
  \<open>obj.get("event").unwrap().as_str().unwrap()\<close>, the \<open>"data"\<close> arm with its
  \<open>expect\<close>, and \<open>sleep = 100\<close> after every arm that returns.\<close>

definition bitstamp_text :: "decoders \<Rightarrow> instrument \<Rightarrow> u64 \<Rightarrow> string \<Rightarrow> conn_state \<times> effect list" where
  "bitstamp_text d i sl msg =
     (case decode_object d msg of
        None \<Rightarrow> ((Dead PanicUnwrap, sl), [])
      | Some obj \<Rightarrow>
          (case obj ''event'' of
             None \<Rightarrow> ((Dead PanicUnwrap, sl), [])
           | Some v \<Rightarrow>
               (case json_as_str v of
                  None \<Rightarrow> ((Dead PanicUnwrap, sl), [])
                | Some ev \<Rightarrow>
                    if ev = ''data'' then
                      (case decode_bitstamp d msg of
                         None \<Rightarrow> ((Dead (PanicExpect ''Can't parse''), sl), [])
                       | Some raw \<Rightarrow> ((Streaming, 100),
                           [Emit (order_book_from_bitstamp Bitstamp (get_symbol_compact i) raw)]))
                    else ((Streaming, 100), []))))"

fun bitstamp_step :: "decoders \<Rightarrow> instrument \<Rightarrow> phase \<Rightarrow> u64 \<Rightarrow> conn_input \<Rightarrow> (conn_state \<times> effect list) option" where
  "bitstamp_step d i Connecting sl inp =
     (case inp of
        ConnectResult ok \<Rightarrow>
          Some (if ok then ((Subscribing, sl), [Connect bitstamp_url])
                else ((Dead (PanicExpect ''Expected connection with Bitstamp to work''), sl),
                      [Connect bitstamp_url]))
      | _ \<Rightarrow> None)"
| "bitstamp_step d i Subscribing sl inp =
     (case inp of
        SendResult ok \<Rightarrow> Some ((Streaming, sl), [Send (Text (bitstamp_subscribe_text i))])
      | _ \<Rightarrow> None)"
| "bitstamp_step d i Streaming sl inp =
     (case inp of
        NextFrame None \<Rightarrow> Some ((Backoff, sl), [])
      | NextFrame (Some WsErr) \<Rightarrow> Some ((Backoff, sl), [])
      | NextFrame (Some (WsOk m)) \<Rightarrow>
          (case m of
             Text msg \<Rightarrow> Some (bitstamp_text d i sl msg)
           | Binary b \<Rightarrow> Some ((Streaming, sl), [])
           | Ping p \<Rightarrow> Some ((AwaitPong p, sl), [])
           | _ \<Rightarrow> Some ((Streaming, 100), []))
      | _ \<Rightarrow> None)"
| "bitstamp_step d i (AwaitPong p) sl inp =
     (case inp of
        SendResult ok \<Rightarrow>
          Some (if ok then ((Streaming, 100), [Send (Pong p)]) else ((Backoff, sl), [Send (Pong p)]))
      | _ \<Rightarrow> None)"
| "bitstamp_step d i Backoff sl inp =
     (case inp of Wake \<Rightarrow> Some ((Connecting, sl * 2), [Sleep sl]) | _ \<Rightarrow> None)"
| "bitstamp_step d i (Dead p) sl inp = None"

subsection \<open>Runs\<close>

text \<open>A run of a connector over the results of its await points, collecting its
  effects; \<open>None\<close> when some input cannot occur where it is given.\<close>

fun conn_run ::
  "(phase \<Rightarrow> u64 \<Rightarrow> conn_input \<Rightarrow> (conn_state \<times> effect list) option) \<Rightarrow>
   conn_state \<Rightarrow> conn_input list \<Rightarrow> (conn_state \<times> effect list) option" where
  "conn_run step s [] = Some (s, [])"
| "conn_run step (ph, sl) (x # xs) =
     (case step ph sl x of
        None \<Rightarrow> None
      | Some (s', es) \<Rightarrow>
          (case conn_run step s' xs of
             None \<Rightarrow> None
           | Some (s'', es') \<Rightarrow> Some (s'', es @ es')))"

fun sleeps :: "effect list \<Rightarrow> u64 list" where
  "sleeps [] = []"
| "sleeps (Sleep t # es) = t # sleeps es"
| "sleeps (e # es) = sleeps es"

fun emitted :: "effect list \<Rightarrow> order_book list" where
  "emitted [] = []"
| "emitted (Emit ob # es) = ob # emitted es"
| "emitted (e # es) = emitted es"

subsection \<open>Sessions that fail\<close>

text \<open>The inputs of a session in which the connection is made but no frame is
  processed: the stream ends at once, the first read fails, or the first frame is a ping
  whose pong cannot be written. Bitstamp's sessions also write the subscription.\<close>

datatype session_failure = StreamEnds | ReadError | PongFails bytes

fun binance_failed_session :: "session_failure \<Rightarrow> conn_input list" where
  "binance_failed_session StreamEnds = [ConnectResult True, NextFrame None, Wake]"
| "binance_failed_session ReadError = [ConnectResult True, NextFrame (Some WsErr), Wake]"
| "binance_failed_session (PongFails p) =
     [ConnectResult True, NextFrame (Some (WsOk (Ping p))), SendResult False, Wake]"

fun bitstamp_failed_session :: "bool \<Rightarrow> session_failure \<Rightarrow> conn_input list" where
  "bitstamp_failed_session b StreamEnds = [ConnectResult True, SendResult b, NextFrame None, Wake]"
| "bitstamp_failed_session b ReadError = [ConnectResult True, SendResult b, NextFrame (Some WsErr), Wake]"
| "bitstamp_failed_session b (PongFails p) =
     [ConnectResult True, SendResult b, NextFrame (Some (WsOk (Ping p))), SendResult False, Wake]"

definition example_decoders :: decoders where
  "example_decoders =
     \<lparr>decode_binance = (\<lambda>msg. if msg = ''{}'' then None
                               else Some \<lparr>last_update_id = 7, bn_bids = [], bn_asks = []\<rparr>),
      decode_object = (\<lambda>msg. None),
      decode_bitstamp = (\<lambda>msg. None)\<rparr>"

definition example_instrument :: instrument where
  "example_instrument = \<lparr>quote = ''usd'', base = ''btc''\<rparr>"

subsection \<open>Runs: composition and frames\<close>

lemma conn_run_append:
  "conn_run step s (xs @ ys) =
     (case conn_run step s xs of
        None \<Rightarrow> None
      | Some (s', es) \<Rightarrow> map_option (\<lambda>(s'', es'). (s'', es @ es')) (conn_run step s' ys))"
  by (induction step s xs rule: conn_run.induct) (auto simp: option.map_id split: option.splits prod.splits)

lemma sleeps_append [simp]: "sleeps (xs @ ys) = sleeps xs @ sleeps ys"
  by (induction xs rule: sleeps.induct) auto

lemma emitted_append [simp]: "emitted (xs @ ys) = emitted xs @ emitted ys"
  by (induction xs rule: emitted.induct) auto

text \<open>A property of the effects of every step, and one of the sleep value that every
  step keeps, hold along every run.\<close>

lemma conn_run_Cons_Some:
  "conn_run step (ph, sl) (x # xs) = Some (s', es) \<longleftrightarrow>
     (\<exists>s1 es1 es2. step ph sl x = Some (s1, es1) \<and> conn_run step s1 xs = Some (s', es2) \<and> es = es1 @ es2)"
  by (auto split: option.splits prod.splits)

lemma conn_run_emitted:
  assumes "\<And>ph sl x s' es ob. step ph sl x = Some (s', es) \<Longrightarrow> ob \<in> set (emitted es) \<Longrightarrow> P ob"
  shows "conn_run step s xs = Some (s', es) \<Longrightarrow> ob \<in> set (emitted es) \<Longrightarrow> P ob"
proof (induction xs arbitrary: s s' es)
  case Nil
  then show ?case by simp
next
  case (Cons x xs)
  obtain ph sl where s: "s = (ph, sl)" by (cases s)
  from Cons.prems(1) obtain s1 es1 es2 where st: "step ph sl x = Some (s1, es1)"
    and r: "conn_run step s1 xs = Some (s', es2)" and es: "es = es1 @ es2"
    by (auto simp only: s conn_run_Cons_Some)
  from Cons.prems(2) es consider "ob \<in> set (emitted es1)" | "ob \<in> set (emitted es2)" by auto
  then show ?case
  proof cases
    case 1
    with st show ?thesis by (rule assms)
  next
    case 2
    with r show ?thesis by (rule Cons.IH)
  qed
qed

lemma conn_run_sleep_inv:
  assumes "\<And>ph sl x s' es. P sl \<Longrightarrow> step ph sl x = Some (s', es) \<Longrightarrow>
             P (snd s') \<and> (\<forall>t\<in>set (sleeps es). P t)"
  shows "P (snd s) \<Longrightarrow> conn_run step s xs = Some (s', es) \<Longrightarrow> P (snd s') \<and> (\<forall>t\<in>set (sleeps es). P t)"
proof (induction xs arbitrary: s s' es)
  case Nil
  then show ?case by simp
next
  case (Cons x xs)
  obtain ph sl where s: "s = (ph, sl)" by (cases s)
  from Cons.prems(2) obtain s1 es1 es2 where st: "step ph sl x = Some (s1, es1)"
    and r: "conn_run step s1 xs = Some (s', es2)" and es: "es = es1 @ es2"
    by (auto simp only: s conn_run_Cons_Some)
  from assms [of sl] Cons.prems(1) st s have p1: "P (snd s1)" and t1: "\<forall>t\<in>set (sleeps es1). P t"
    by simp_all
  from Cons.IH [OF p1 r] have "P (snd s') \<and> (\<forall>t\<in>set (sleeps es2). P t)" .
  with t1 es show ?case by auto
qed

subsection \<open>One step\<close>

lemma binance_step_emitted:
  "binance_step d i ph sl x = Some (s', es) \<Longrightarrow> ob \<in> set (emitted es) \<Longrightarrow>
     exchange ob = Binance \<and> instrument ob = get_symbol_compact i"
  by (cases ph)
     (auto simp: order_book_from_binance_def
      split: conn_input.splits option.splits ws_event.splits message.splits if_splits)

lemma bitstamp_step_emitted:
  "bitstamp_step d i ph sl x = Some (s', es) \<Longrightarrow> ob \<in> set (emitted es) \<Longrightarrow>
     exchange ob = Bitstamp \<and> instrument ob = get_symbol_compact i"
  by (cases ph)
     (auto simp: order_book_from_bitstamp_def bitstamp_text_def
      split: conn_input.splits option.splits ws_event.splits message.splits if_splits)

lemma binance_step_sleeps:
  "binance_step d i ph sl x = Some (s', es) \<Longrightarrow> sleeps es = (if ph = Backoff then [sl] else [])"
  by (cases ph) (auto split: conn_input.splits option.splits ws_event.splits message.splits if_splits)

lemma bitstamp_step_sleeps:
  "bitstamp_step d i ph sl x = Some (s', es) \<Longrightarrow> sleeps es = (if ph = Backoff then [sl] else [])"
  by (cases ph)
     (auto simp: bitstamp_text_def split: conn_input.splits option.splits ws_event.splits message.splits if_splits)

lemma binance_step_sleep:
  "binance_step d i ph sl x = Some ((ph', sl'), es) \<Longrightarrow> sl' = sl * 2 \<or> sl' = sl \<or> sl' = 100"
  by (cases ph) (auto split: conn_input.splits option.splits ws_event.splits message.splits if_splits)

lemma bitstamp_step_sleep:
  "bitstamp_step d i ph sl x = Some ((ph', sl'), es) \<Longrightarrow> sl' = sl * 2 \<or> sl' = sl \<or> sl' = 100"
  by (cases ph)
     (auto simp: bitstamp_text_def split: conn_input.splits option.splits ws_event.splits message.splits if_splits)

lemma binance_failed_session_run:
  "conn_run (binance_step d i) (Connecting, sl) (binance_failed_session f) =
     Some ((Connecting, sl * 2),
           [Connect (binance_url i)] @ (case f of PongFails p \<Rightarrow> [Send (Pong p)] | _ \<Rightarrow> []) @ [Sleep sl])"
  by (cases f) simp_all

lemma bitstamp_failed_session_run:
  "conn_run (bitstamp_step d i) (Connecting, sl) (bitstamp_failed_session b f) =
     Some ((Connecting, sl * 2),
           [Connect bitstamp_url, Send (Text (bitstamp_subscribe_text i))]
           @ (case f of PongFails p \<Rightarrow> [Send (Pong p)] | _ \<Rightarrow> []) @ [Sleep sl])"
  by (cases f) simp_all

lemma map_doubling:
  "map (\<lambda>j. sl * 2 ^ j) [0..<Suc n] = (sl::u64) # map (\<lambda>j. (sl * 2) * 2 ^ j) [0..<n]"
  by (simp add: map_upt_Suc mult.assoc del: upt_Suc)

subsection \<open>The delay as a 64-bit word\<close>

lemma unat_backoff: "unat ((100::u64) * 2 ^ k) = (100 * 2 ^ k) mod 2 ^ 64"
proof -
  have "(100::u64) * 2 ^ k = of_nat (100 * 2 ^ k)" by simp
  then show ?thesis by (simp only: unat_of_nat) simp
qed

lemma backoff_power_step:
  assumes "\<exists>k. sl = (100::u64) * 2 ^ k" and "sl' = sl * 2 \<or> sl' = sl \<or> sl' = 100"
  shows "\<exists>k. sl' = 100 * 2 ^ k"
proof -
  from assms(1) obtain k where k: "sl = 100 * 2 ^ k" by blast
  have "sl * 2 = 100 * 2 ^ Suc k" by (simp add: k mult.assoc)
  moreover have "(100::u64) = 100 * 2 ^ 0" by simp
  ultimately show ?thesis using assms(2) k by blast
qed

lemma binance_failed_sessions_run:
  "\<exists>effs. conn_run (binance_step d i) (Connecting, sl) (concat (map binance_failed_session fs)) =
            Some ((Connecting, sl * 2 ^ length fs), effs)
        \<and> sleeps effs = map (\<lambda>j. sl * 2 ^ j) [0..<length fs] \<and> emitted effs = []"
proof (induction fs arbitrary: sl)
  case Nil
  then show ?case by simp
next
  case (Cons f fs)
  from Cons.IH [of "sl * 2"] obtain effs where
    r: "conn_run (binance_step d i) (Connecting, sl * 2) (concat (map binance_failed_session fs)) =
          Some ((Connecting, sl * 2 * 2 ^ length fs), effs)"
    and s: "sleeps effs = map (\<lambda>j. sl * 2 * 2 ^ j) [0..<length fs]" and e: "emitted effs = []"
    by blast
  show ?case
    using r s e map_doubling [of sl "length fs"]
    by (cases f) (simp_all add: conn_run_append binance_failed_session_run mult.assoc mult.commute)
qed

lemma bitstamp_failed_sessions_run:
  "\<exists>effs. conn_run (bitstamp_step d i) (Connecting, sl) (concat (map (bitstamp_failed_session b) fs)) =
            Some ((Connecting, sl * 2 ^ length fs), effs)
        \<and> sleeps effs = map (\<lambda>j. sl * 2 ^ j) [0..<length fs] \<and> emitted effs = []"
proof (induction fs arbitrary: sl)
  case Nil
  then show ?case by simp
next
  case (Cons f fs)
  from Cons.IH [of "sl * 2"] obtain effs where
    r: "conn_run (bitstamp_step d i) (Connecting, sl * 2) (concat (map (bitstamp_failed_session b) fs)) =
          Some ((Connecting, sl * 2 * 2 ^ length fs), effs)"
    and s: "sleeps effs = map (\<lambda>j. sl * 2 * 2 ^ j) [0..<length fs]" and e: "emitted effs = []"
    by blast
  show ?case
    using r s e map_doubling [of sl "length fs"]
    by (cases f) (simp_all add: conn_run_append bitstamp_failed_session_run mult.assoc mult.commute)
qed

lemma unat_backoff_exact:
  assumes k: "k \<le> 57"
  shows "unat ((100::u64) * 2 ^ k) = 100 * 2 ^ k"
proof -
  have "(2::nat) ^ k \<le> 2 ^ 57" using k by (rule power_increasing) simp
  then have "(100::nat) * 2 ^ k < 2 ^ 64" by simp
  then show ?thesis by (simp add: unat_backoff)
qed

subsection \<open>Backoff\<close>

text \<open>
  C7. Exponential backoff: over consecutive sessions in which no frame is processed, each
  connector sleeps \<open>sl\<close>, \<open>2 sl\<close>, \<open>4 sl\<close>, \<dots> (products in \<open>u64\<close>) before its
  reconnections, emits nothing, and is left reconnecting with delay \<open>sl * 2^n\<close>.
\<close>

theorem backoff_doubles:
  "(\<exists>effs. conn_run (binance_step d i) (Connecting, sl) (concat (map binance_failed_session fs)) =
            Some ((Connecting, sl * 2 ^ length fs), effs)
        \<and> sleeps effs = map (\<lambda>j. sl * 2 ^ j) [0..<length fs] \<and> emitted effs = [])
   \<and> (\<exists>effs. conn_run (bitstamp_step d i) (Connecting, sl) (concat (map (bitstamp_failed_session b) fs)) =
            Some ((Connecting, sl * 2 ^ length fs), effs)
        \<and> sleeps effs = map (\<lambda>j. sl * 2 ^ j) [0..<length fs] \<and> emitted effs = [])"
  using binance_failed_sessions_run [of d i sl fs] bitstamp_failed_sessions_run [of d i sl b fs]
  by blast

lemma unat_backoff_exact_iff: "unat ((100::u64) * 2 ^ k) = 100 * 2 ^ k \<longleftrightarrow> k \<le> 57"
proof
  assume "k \<le> 57"
  then show "unat ((100::u64) * 2 ^ k) = 100 * 2 ^ k" by (rule unat_backoff_exact)
next
  assume e: "unat ((100::u64) * 2 ^ k) = 100 * 2 ^ k"
  have lt: "(100::nat) * 2 ^ k < 2 ^ 64"
    using e unat_backoff [of k] mod_less_divisor [of "2 ^ 64" "100 * 2 ^ k"] by simp
  show "k \<le> 57"
  proof (rule ccontr)
    assume "\<not> k \<le> 57"
    then have "(2::nat) ^ 58 \<le> 2 ^ k" by (intro power_increasing) simp_all
    then have "(2::nat) ^ 64 \<le> 100 * 2 ^ k" by simp
    with lt show False by simp
  qed
qed

lemma backoff_delay_zero_iff: "(100::u64) * 2 ^ k = 0 \<longleftrightarrow> 62 \<le> k"
proof
  assume "62 \<le> k"
  then have "(2::nat) ^ 64 dvd 2 ^ (k + 2)" by (intro le_imp_power_dvd) simp
  then have "(2::nat) ^ 64 dvd 25 * 2 ^ (k + 2)" by (rule dvd_mult)
  moreover have "(100::nat) * 2 ^ k = 25 * 2 ^ (k + 2)" by (simp add: power_add)
  ultimately have "(100 * 2 ^ k) mod (2::nat) ^ 64 = 0" by (simp only: dvd_imp_mod_0)
  then have "unat ((100::u64) * 2 ^ k) = 0" by (simp only: unat_backoff)
  then show "(100::u64) * 2 ^ k = 0" by (simp only: unat_eq_zero)
next
  assume z: "(100::u64) * 2 ^ k = 0"
  then have u: "(100 * 2 ^ k) mod (2::nat) ^ 64 = 0" by (metis unat_backoff unat_0)
  show "62 \<le> k"
  proof (rule ccontr)
    assume "\<not> 62 \<le> k"
    then consider "k \<le> 57" | "k = 58" | "k = 59" | "k = 60" | "k = 61" by arith
    then show False
    proof cases
      case 1
      then have "unat ((100::u64) * 2 ^ k) = 100 * 2 ^ k" by (rule unat_backoff_exact)
      with z show False by simp
    qed (use u in simp_all)
  qed
qed

text \<open>
  C8. Reconnect delays are exact only while they fit in 64 bits: over consecutive failed
  sessions from the start, the \<open>k\<close>-th delay slept, \<open>100 * 2^k\<close> in \<open>u64\<close>, reads as
  \<open>100 * 2^k\<close> milliseconds exactly when \<open>k \<le> 57\<close> (a debug build panics at the
  58th doubling instead).
\<close>

theorem backoff_delay_exact_iff:
  assumes "k < length fs"
  shows "\<exists>effs. conn_run (binance_step d i) conn_initial (concat (map binance_failed_session fs)) =
                  Some ((Connecting, 100 * 2 ^ length fs), effs)
              \<and> (unat (sleeps effs ! k) = 100 * 2 ^ k \<longleftrightarrow> k \<le> 57)"
proof -
  obtain effs where r: "conn_run (binance_step d i) (Connecting, 100) (concat (map binance_failed_session fs)) =
            Some ((Connecting, 100 * 2 ^ length fs), effs)"
    and s: "sleeps effs = map (\<lambda>j. 100 * 2 ^ j) [0..<length fs]"
    using binance_failed_sessions_run [of d i 100 fs] by blast
  have "sleeps effs ! k = 100 * 2 ^ k" using s assms by simp
  then show ?thesis
    using r unat_backoff_exact_iff [of k] by (simp add: conn_initial_def initial_sleep_def)
qed

theorem backoff_delay_exact_iff_witness:
  "\<exists>effs. conn_run (binance_step example_decoders example_instrument) conn_initial
            (concat (map binance_failed_session (replicate 59 StreamEnds))) =
            Some ((Connecting, 100 * 2 ^ 59), effs)
        \<and> unat (sleeps effs ! 58) \<noteq> 100 * 2 ^ 58"
proof -
  have h: "58 < length (replicate 59 StreamEnds)" by simp
  show ?thesis
    using backoff_delay_exact_iff [OF h, of example_decoders example_instrument] by simp
qed

text \<open>
  C9. The delay wraps to zero: after 62 or more consecutive failed sessions from the
  start, \<open>sleep *= 2\<close> has overflowed to 0, and from the 63rd reconnection on the
  connector reconnects without sleeping (in a debug build the 58th doubling panics).
\<close>

theorem backoff_wraps_to_zero:
  assumes "62 \<le> length fs"
  shows "\<exists>effs. conn_run (binance_step d i) conn_initial (concat (map binance_failed_session fs)) =
                  Some ((Connecting, 0), effs)
              \<and> (\<forall>j<length fs. sleeps effs ! j = 0 \<longleftrightarrow> 62 \<le> j)"
proof -
  obtain effs where r: "conn_run (binance_step d i) (Connecting, 100) (concat (map binance_failed_session fs)) =
            Some ((Connecting, 100 * 2 ^ length fs), effs)"
    and s: "sleeps effs = map (\<lambda>j. 100 * 2 ^ j) [0..<length fs]"
    using binance_failed_sessions_run [of d i 100 fs] by blast
  have "(100::u64) * 2 ^ length fs = 0" using assms by (simp add: backoff_delay_zero_iff)
  with r s show ?thesis by (simp add: conn_initial_def initial_sleep_def backoff_delay_zero_iff)
qed

theorem backoff_wraps_to_zero_witness:
  "62 \<le> length (replicate 62 StreamEnds)
   \<and> (\<exists>effs. conn_run (binance_step example_decoders example_instrument) conn_initial
               (concat (map binance_failed_session (replicate 62 StreamEnds))) = Some ((Connecting, 0), effs))"
proof -
  have h: "62 \<le> length (replicate 62 StreamEnds)" by simp
  show ?thesis using backoff_wraps_to_zero [OF h, of example_decoders example_instrument] h by blast
qed

text \<open>
  C10. In every run from the start, the delay kept and every delay slept is
  \<open>100 * 2^k\<close> (in \<open>u64\<close>) for some \<open>k\<close>: the delay only doubles or returns to the base.
\<close>

theorem sleeps_are_backoff_powers:
  "(conn_run (binance_step d i) conn_initial xs = Some ((ph, sl), es) \<longrightarrow>
      (\<exists>k. sl = 100 * 2 ^ k) \<and> (\<forall>t\<in>set (sleeps es). \<exists>k. t = 100 * 2 ^ k))
   \<and> (conn_run (bitstamp_step d i) conn_initial xs = Some ((ph, sl), es) \<longrightarrow>
      (\<exists>k. sl = 100 * 2 ^ k) \<and> (\<forall>t\<in>set (sleeps es). \<exists>k. t = 100 * 2 ^ k))"
proof -
  let ?P = "\<lambda>sl. \<exists>k. sl = (100::u64) * 2 ^ k"
  have p0: "?P (snd conn_initial)" by (auto simp: conn_initial_def initial_sleep_def intro: exI [of _ 0])
  have b: "?P (snd s') \<and> (\<forall>t\<in>set (sleeps es). ?P t)"
    if "?P sl" and "binance_step d i ph sl x = Some (s', es)" for ph sl x s' es
  proof -
    obtain ph' sl' where s': "s' = (ph', sl')" by (cases s')
    with that binance_step_sleep have "sl' = sl * 2 \<or> sl' = sl \<or> sl' = 100" by blast
    with that(1) have "?P sl'" by (rule backoff_power_step)
    with that binance_step_sleeps [OF that(2)] s' show ?thesis by simp
  qed
  have t: "?P (snd s') \<and> (\<forall>t\<in>set (sleeps es). ?P t)"
    if "?P sl" and "bitstamp_step d i ph sl x = Some (s', es)" for ph sl x s' es
  proof -
    obtain ph' sl' where s': "s' = (ph', sl')" by (cases s')
    with that bitstamp_step_sleep have "sl' = sl * 2 \<or> sl' = sl \<or> sl' = 100" by blast
    with that(1) have "?P sl'" by (rule backoff_power_step)
    with that bitstamp_step_sleeps [OF that(2)] s' show ?thesis by simp
  qed
  show ?thesis
  proof (rule conjI; rule impI)
    assume "conn_run (binance_step d i) conn_initial xs = Some ((ph, sl), es)"
    from conn_run_sleep_inv [where P = ?P and step = "binance_step d i", OF b p0 this]
    show "?P sl \<and> (\<forall>t\<in>set (sleeps es). ?P t)" by simp
  next
    assume "conn_run (bitstamp_step d i) conn_initial xs = Some ((ph, sl), es)"
    from conn_run_sleep_inv [where P = ?P and step = "bitstamp_step d i", OF t p0 this]
    show "?P sl \<and> (\<forall>t\<in>set (sleeps es). ?P t)" by simp
  qed
qed

theorem sleeps_are_backoff_powers_witness:
  "conn_run (binance_step example_decoders example_instrument) conn_initial
      [ConnectResult True, NextFrame None, Wake] =
     Some ((Connecting, 200), [Connect (binance_url example_instrument), Sleep 100])
   \<and> (\<exists>k. (200::u64) = 100 * 2 ^ k)"
proof -
  have r: "conn_run (binance_step example_decoders example_instrument) conn_initial
      [ConnectResult True, NextFrame None, Wake] =
     Some ((Connecting, 200), [Connect (binance_url example_instrument), Sleep 100])"
    by (simp add: conn_initial_def initial_sleep_def)
  show ?thesis using sleeps_are_backoff_powers r by blast
qed

text \<open>
  How one step of the Binance connector changes the delay: it doubles exactly when
  the connector wakes from its backoff sleep, returns to the base 100 exactly when a frame
  has been handled and the read loop goes on, and is unchanged otherwise (the connection
  attempt, the end or failure of the stream, a ping awaiting its pong, a panic).
\<close>

theorem binance_sleep_update:
  assumes "binance_step d i ph sl x = Some ((ph', sl'), es)"
  shows "sl' = (if ph = Backoff then sl * 2 else if ph' = Streaming \<and> ph \<noteq> Connecting then 100 else sl)"
  using assms
  by (cases ph) (auto split: conn_input.splits option.splits ws_event.splits message.splits if_splits)

theorem binance_sleep_update_witness:
  "binance_step example_decoders example_instrument Streaming 800 (NextFrame (Some (WsOk (Binary [])))) =
     Some ((Streaming, 100), [])
   \<and> (100::u64) = (if Streaming = Backoff then 800 * 2
                   else if Streaming = Streaming \<and> Streaming \<noteq> Connecting then 100 else 800)"
proof -
  have r: "binance_step example_decoders example_instrument Streaming 800 (NextFrame (Some (WsOk (Binary [])))) =
     Some ((Streaming, 100), [])" by simp
  show ?thesis using binance_sleep_update [OF r] r by blast
qed

lemma binance_binary_frames:
  "conn_run (binance_step d i) (Streaming, sl) (map (\<lambda>b. NextFrame (Some (WsOk (Binary b)))) bs) =
     Some ((Streaming, if bs = [] then sl else 100), [])"
  by (induction bs arbitrary: sl) simp_all

lemma bitstamp_binary_frames:
  "conn_run (bitstamp_step d i) (Streaming, sl) (map (\<lambda>b. NextFrame (Some (WsOk (Binary b)))) bs) =
     Some ((Streaming, sl), [])"
  by (induction bs) simp_all

text \<open>
  C12. The two connectors differ on binary frames: Binance treats one as processed and
  resets the delay to 100, Bitstamp only logs it and keeps the delay, so a Bitstamp
  session that receives only binary frames still doubles the next delay.
\<close>

theorem binary_frame_reset_differs:
  assumes "bs \<noteq> []"
  shows "conn_run (binance_step d i) (Connecting, sl)
      (ConnectResult True # map (\<lambda>b. NextFrame (Some (WsOk (Binary b)))) bs @ [NextFrame None, Wake]) =
     Some ((Connecting, 200), [Connect (binance_url i), Sleep 100])
   \<and> conn_run (bitstamp_step d i) (Connecting, sl)
      (ConnectResult True # SendResult ok # map (\<lambda>b. NextFrame (Some (WsOk (Binary b)))) bs @ [NextFrame None, Wake]) =
     Some ((Connecting, sl * 2), [Connect bitstamp_url, Send (Text (bitstamp_subscribe_text i)), Sleep sl])"
  using assms by (simp add: conn_run_append binance_binary_frames bitstamp_binary_frames)

theorem binary_frame_reset_differs_witness:
  "conn_run (binance_step example_decoders example_instrument) (Connecting, 800)
      (ConnectResult True # map (\<lambda>b. NextFrame (Some (WsOk (Binary b)))) [[], [1]] @ [NextFrame None, Wake]) =
     Some ((Connecting, 200), [Connect (binance_url example_instrument), Sleep 100])
   \<and> conn_run (bitstamp_step example_decoders example_instrument) (Connecting, 800)
      (ConnectResult True # SendResult True # map (\<lambda>b. NextFrame (Some (WsOk (Binary b)))) [[], [1]] @ [NextFrame None, Wake]) =
     Some ((Connecting, 1600), [Connect bitstamp_url, Send (Text (bitstamp_subscribe_text example_instrument)), Sleep 800])"
  using binary_frame_reset_differs [of "[[], [1]]" example_decoders example_instrument 800 True] by simp

text \<open>
  C13. Every snapshot a connector sends to the shared channel is stamped with that
  connector's exchange and with the compact symbol of its instrument, in every run.
\<close>

theorem connectors_emit_own_exchange:
  "(conn_run (binance_step d i) s xs = Some (s', es) \<longrightarrow>
      (\<forall>ob\<in>set (emitted es). exchange ob = Binance \<and> instrument ob = get_symbol_compact i))
   \<and> (conn_run (bitstamp_step d i) s xs = Some (s', es) \<longrightarrow>
      (\<forall>ob\<in>set (emitted es). exchange ob = Bitstamp \<and> instrument ob = get_symbol_compact i))"
proof (rule conjI; intro impI ballI)
  fix ob assume r: "conn_run (binance_step d i) s xs = Some (s', es)" and ob: "ob \<in> set (emitted es)"
  show "exchange ob = Binance \<and> instrument ob = get_symbol_compact i"
    by (rule conn_run_emitted [where step = "binance_step d i"
          and P = "\<lambda>ob. exchange ob = Binance \<and> instrument ob = get_symbol_compact i", OF _ r ob])
       (rule binance_step_emitted)
next
  fix ob assume r: "conn_run (bitstamp_step d i) s xs = Some (s', es)" and ob: "ob \<in> set (emitted es)"
  show "exchange ob = Bitstamp \<and> instrument ob = get_symbol_compact i"
    by (rule conn_run_emitted [where step = "bitstamp_step d i"
          and P = "\<lambda>ob. exchange ob = Bitstamp \<and> instrument ob = get_symbol_compact i", OF _ r ob])
       (rule bitstamp_step_emitted)
qed

theorem connectors_emit_own_exchange_witness:
  "conn_run (binance_step example_decoders example_instrument) (Streaming, 100)
      [NextFrame (Some (WsOk (Text ''[1]'')))] =
     Some ((Streaming, 100),
       [Emit \<lparr>exchange = Binance, sequence = 7, instrument = ''btcusd'', bids = [], asks = []\<rparr>])
   \<and> exchange \<lparr>exchange = Binance, sequence = 7, instrument = ''btcusd'', bids = [], asks = []\<rparr> = Binance"
proof -
  have r: "conn_run (binance_step example_decoders example_instrument) (Streaming, 100)
      [NextFrame (Some (WsOk (Text ''[1]'')))] =
     Some ((Streaming, 100),
       [Emit \<lparr>exchange = Binance, sequence = 7, instrument = ''btcusd'', bids = [], asks = []\<rparr>])"
    by (simp add: example_decoders_def example_instrument_def order_book_from_binance_def get_symbol_compact_def)
  show ?thesis using connectors_emit_own_exchange r by fastforce
qed

text \<open>
  C14. A failed connection attempt is fatal: \<open>connect_async(..).expect(..)\<close> panics,
  the task ends, and no later input (no retry, no backoff) is possible, for both
  connectors; this applies to every reconnection as well as to the first connection.
\<close>

theorem connect_failure_fatal:
  "conn_run (binance_step d i) (Connecting, sl) (ConnectResult False # xs) =
     (if xs = [] then Some ((Dead (PanicExpect ''Expected connection with Binance to work''), sl),
                            [Connect (binance_url i)])
      else None)
   \<and> conn_run (bitstamp_step d i) (Connecting, sl) (ConnectResult False # xs) =
     (if xs = [] then Some ((Dead (PanicExpect ''Expected connection with Bitstamp to work''), sl),
                            [Connect bitstamp_url])
      else None)"
  by (cases xs) simp_all

text \<open>
  C15. A text frame the connector cannot decode is fatal: Binance panics in
  \<open>expect("Can't parse")\<close>, Bitstamp in \<open>resp.unwrap()\<close> when the frame is not a JSON
  object; the task ends with nothing emitted and no later input is possible.
\<close>

theorem malformed_text_fatal:
  "(decode_binance d m = None \<longrightarrow>
      conn_run (binance_step d i) (Streaming, sl) (NextFrame (Some (WsOk (Text m))) # xs) =
        (if xs = [] then Some ((Dead (PanicExpect ''Can't parse''), sl), []) else None))
   \<and> (decode_object d m = None \<longrightarrow>
      conn_run (bitstamp_step d i) (Streaming, sl) (NextFrame (Some (WsOk (Text m))) # xs) =
        (if xs = [] then Some ((Dead PanicUnwrap, sl), []) else None))"
  by (cases xs) (simp_all add: bitstamp_text_def)

theorem malformed_text_fatal_witness:
  "decode_binance example_decoders ''{}'' = None
   \<and> conn_run (binance_step example_decoders example_instrument) (Streaming, 100)
       [NextFrame (Some (WsOk (Text ''{}''))), NextFrame None] = None"
proof -
  have h: "decode_binance example_decoders ''{}'' = None" by (simp add: example_decoders_def)
  show ?thesis
    using malformed_text_fatal [of example_decoders "''{}''" example_instrument 100 "[NextFrame None]"] h
    by simp
qed

end
