(* ===== verification/Broadcast.thy ===== *)
theory Broadcast
  imports Prelude "HOL-Library.AList"
begin

text \<open>
  The \<open>tokio::sync::broadcast\<close> channel that carries the snapshots from the connectors
  to the aggregation loop and the summaries from the loop to the subscribers. It is a
  library type, modelled from its documented behaviour: a queue of capacity \<open>cap\<close>
  shared by all receivers, each receiver with its own read position; \<open>send\<close> never
  waits and fails only when no receiver exists; a receiver that has fallen more than
  \<open>cap\<close> values behind gets \<open>Lagged n\<close> and is moved to the oldest value still held;
  \<open>recv\<close> reports \<open>Closed\<close> once every sender is gone and nothing is left to read.
  The model keeps every value ever sent (\<open>sent\<close>); the values still held are the last
  \<open>cap\<close> of them. Receivers are named by numbers, in an association list.
\<close>

record 'a bchan =
  sent :: "'a list"
  cap :: nat
  receivers :: "(nat \<times> nat) list"
  next_rx :: nat
  senders :: nat

datatype recv_error = Lagged nat | Closed

datatype 'a recv_result = RecvOk 'a | RecvErr recv_error | Pending

text \<open>\<open>broadcast::channel(cap)\<close>: one sender and one receiver (number 0), nothing sent.\<close>

definition bchan_new :: "nat \<Rightarrow> 'a bchan" where
  "bchan_new n = \<lparr>sent = [], cap = n, receivers = [(0, 0)], next_rx = 1, senders = 1\<rparr>"

text \<open>Position of the oldest value still held.\<close>

definition oldest :: "'a bchan \<Rightarrow> nat" where
  "oldest c = length (sent c) - cap c"

definition rx_pos :: "'a bchan \<Rightarrow> nat \<Rightarrow> nat option" where
  "rx_pos c r = map_of (receivers c) r"

definition set_rx_pos :: "'a bchan \<Rightarrow> nat \<Rightarrow> nat \<Rightarrow> 'a bchan" where
  "set_rx_pos c r p = c\<lparr>receivers := AList.update r p (receivers c)\<rparr>"

text \<open>\<open>Sender::send\<close>: \<open>False\<close> is \<open>Err(SendError)\<close>, when there is no receiver.\<close>

definition bchan_send :: "'a bchan \<Rightarrow> 'a \<Rightarrow> 'a bchan \<times> bool" where
  "bchan_send c v =
     (if receivers c = [] then (c, False) else (c\<lparr>sent := sent c @ [v]\<rparr>, True))"

text \<open>\<open>Sender::subscribe\<close>: a new receiver positioned after everything sent so far.\<close>

definition bchan_subscribe :: "'a bchan \<Rightarrow> 'a bchan \<times> nat" where
  "bchan_subscribe c =
     (c\<lparr>receivers := (next_rx c, length (sent c)) # receivers c, next_rx := Suc (next_rx c)\<rparr>, next_rx c)"

text \<open>\<open>Receiver::recv\<close> on receiver \<open>r\<close>; \<open>None\<close> if \<open>r\<close> is not a receiver.\<close>

definition bchan_recv :: "'a bchan \<Rightarrow> nat \<Rightarrow> ('a bchan \<times> 'a recv_result) option" where
  "bchan_recv c r =
     (case rx_pos c r of
        None \<Rightarrow> None
      | Some p \<Rightarrow>
          if p < oldest c then Some (set_rx_pos c r (oldest c), RecvErr (Lagged (oldest c - p)))
          else if p < length (sent c) then Some (set_rx_pos c r (Suc p), RecvOk (sent c ! p))
          else if senders c = 0 then Some (c, RecvErr Closed)
          else Some (c, Pending))"

text \<open>Dropping a receiver, cloning and dropping a sender.\<close>

definition bchan_drop_rx :: "'a bchan \<Rightarrow> nat \<Rightarrow> 'a bchan" where
  "bchan_drop_rx c r = c\<lparr>receivers := AList.delete r (receivers c)\<rparr>"

definition bchan_clone_tx :: "'a bchan \<Rightarrow> 'a bchan" where
  "bchan_clone_tx c = c\<lparr>senders := Suc (senders c)\<rparr>"

definition bchan_drop_tx :: "'a bchan \<Rightarrow> 'a bchan" where
  "bchan_drop_tx c = c\<lparr>senders := senders c - 1\<rparr>"

text \<open>Well-formedness of a channel: receiver numbers are distinct and below the next
  number to hand out, and every read position lies within the values sent.\<close>

definition bchan_wf :: "'a bchan \<Rightarrow> bool" where
  "bchan_wf c \<longleftrightarrow> distinct (map fst (receivers c)) \<and> (\<forall>(r, p)\<in>set (receivers c). r < next_rx c \<and> p \<le> length (sent c))"

declare bchan_send_def [step_simps] bchan_recv_def [step_simps] rx_pos_def [step_simps] oldest_def [step_simps]

subsection \<open>Basic facts\<close>

lemma rx_pos_set_rx_pos [simp]:
  "rx_pos (set_rx_pos c r p) r' = (if r' = r then Some p else rx_pos c r')"
  by (simp add: rx_pos_def set_rx_pos_def update_conv')

lemma sent_set_rx_pos [simp]: "sent (set_rx_pos c r p) = sent c"
  by (simp add: set_rx_pos_def)

lemma cap_set_rx_pos [simp]: "cap (set_rx_pos c r p) = cap c"
  by (simp add: set_rx_pos_def)

lemma senders_set_rx_pos [simp]: "senders (set_rx_pos c r p) = senders c"
  by (simp add: set_rx_pos_def)

lemma oldest_set_rx_pos [simp]: "oldest (set_rx_pos c r p) = oldest c"
  by (simp add: oldest_def)

lemma bchan_send_sent:
  "bchan_send c v = (c', ok) \<Longrightarrow> sent c' = (if ok then sent c @ [v] else sent c)"
  by (auto simp: bchan_send_def split: if_splits)

lemma bchan_send_rx_pos:
  "bchan_send c v = (c', ok) \<Longrightarrow> rx_pos c' r = rx_pos c r"
  by (auto simp: bchan_send_def rx_pos_def split: if_splits)

text \<open>What one \<open>recv\<close> does to the position of its receiver and what it returns.\<close>

lemma bchan_recv_Some:
  assumes "bchan_recv c r = Some (c', res)"
  obtains p where "rx_pos c r = Some p"
    and "p < oldest c" "res = RecvErr (Lagged (oldest c - p))" "c' = set_rx_pos c r (oldest c)"
  | p where "rx_pos c r = Some p"
    and "oldest c \<le> p" "p < length (sent c)" "res = RecvOk (sent c ! p)" "c' = set_rx_pos c r (Suc p)"
  | p where "rx_pos c r = Some p" "length (sent c) \<le> p" "c' = c"
    and "res = (if senders c = 0 then RecvErr Closed else Pending)"
  using assms by (fastforce simp: bchan_recv_def split: option.splits if_splits)


lemma bchan_send_next_rx:
  "bchan_send c v = (c', ok) \<Longrightarrow> next_rx c' = next_rx c"
  by (auto simp: bchan_send_def split: if_splits)

lemma sent_bchan_drop_rx [simp]: "sent (bchan_drop_rx c r) = sent c"
  by (simp add: bchan_drop_rx_def)

lemma next_rx_bchan_drop_rx [simp]: "next_rx (bchan_drop_rx c r) = next_rx c"
  by (simp add: bchan_drop_rx_def)

lemma next_rx_set_rx_pos [simp]: "next_rx (set_rx_pos c r p) = next_rx c"
  by (simp add: set_rx_pos_def)

lemma rx_pos_bchan_drop_rx [simp]:
  "rx_pos (bchan_drop_rx c r) r' = (if r' = r then None else rx_pos c r')"
  by (simp add: rx_pos_def bchan_drop_rx_def delete_conv')

lemma bchan_subscribe_fst:
  "sent (fst (bchan_subscribe c)) = sent c" "next_rx (fst (bchan_subscribe c)) = Suc (next_rx c)"
  "snd (bchan_subscribe c) = next_rx c"
  by (simp_all add: bchan_subscribe_def)

lemma rx_pos_bchan_subscribe:
  "rx_pos (fst (bchan_subscribe c)) r = (if r = next_rx c then Some (length (sent c)) else rx_pos c r)"
  by (simp add: bchan_subscribe_def rx_pos_def)

lemma bchan_recv_keeps:
  assumes "bchan_recv c r = Some (c', res)"
  shows "sent c' = sent c" "next_rx c' = next_rx c" "r' \<noteq> r \<Longrightarrow> rx_pos c' r' = rx_pos c r'"
  using assms by (cases rule: bchan_recv_Some; simp)+

lemma rx_pos_Some_receivers: "rx_pos c r = Some p \<Longrightarrow> receivers c \<noteq> []"
  by (auto simp: rx_pos_def)


lemma senders_bchan_drop_rx [simp]: "senders (bchan_drop_rx c r) = senders c"
  by (simp add: bchan_drop_rx_def)

lemma bchan_drop_tx_simps [simp]:
  "sent (bchan_drop_tx c) = sent c" "senders (bchan_drop_tx c) = senders c - 1"
  "receivers (bchan_drop_tx c) = receivers c"
  by (simp_all add: bchan_drop_tx_def)

lemma bchan_send_senders: "senders (fst (bchan_send c v)) = senders c"
  by (simp add: bchan_send_def)

lemma bchan_send_sent_subset: "set (sent (fst (bchan_send c v))) \<subseteq> insert v (set (sent c))"
  by (auto simp: bchan_send_def)

lemma bchan_recv_senders:
  assumes "bchan_recv c r = Some (c', res)" shows "senders c' = senders c"
  using assms by (cases rule: bchan_recv_Some) simp_all

lemma bchan_recv_Closed:
  assumes "bchan_recv c r = Some (c', RecvErr Closed)" shows "senders c = 0"
  using assms by (cases rule: bchan_recv_Some) (simp_all split: if_splits)

lemma bchan_recv_RecvOk:
  assumes "bchan_recv c r = Some (c', RecvOk v)" shows "v \<in> set (sent c) \<and> sent c' = sent c"
  using assms by (cases rule: bchan_recv_Some) (simp_all split: if_splits)

lemma set_alist_update: "set (AList.update k v al) \<subseteq> insert (k, v) (set al)"
  by (induction al) auto

lemma set_alist_delete: "set (AList.delete k al) \<subseteq> set al"
  by (induction al) auto

lemma bchan_wf_new: "bchan_wf (bchan_new n)"
  by (simp add: bchan_wf_def bchan_new_def)

lemma bchan_wf_send: "bchan_wf c \<Longrightarrow> bchan_wf (fst (bchan_send c v))"
  by (fastforce simp: bchan_wf_def bchan_send_def)

lemma bchan_wf_subscribe: "bchan_wf c \<Longrightarrow> bchan_wf (fst (bchan_subscribe c))"
  by (fastforce simp: bchan_wf_def bchan_subscribe_def)

lemma bchan_wf_set_rx_pos:
  "bchan_wf c \<Longrightarrow> r \<in> fst ` set (receivers c) \<Longrightarrow> p \<le> length (sent c) \<Longrightarrow> bchan_wf (set_rx_pos c r p)"
  using set_alist_update [of r p "receivers c"]
  by (fastforce simp: bchan_wf_def set_rx_pos_def distinct_update)

lemma bchan_wf_recv:
  assumes "bchan_wf c" "bchan_recv c r = Some (c', res)"
  shows "bchan_wf c'"
proof -
  have dom: "rx_pos c r = Some p \<Longrightarrow> r \<in> fst ` set (receivers c)" for p
    by (force simp: rx_pos_def dest: map_of_SomeD)
  from assms(2) show ?thesis
  proof (cases rule: bchan_recv_Some)
    case (1 p)
    then show ?thesis using assms(1) dom by (auto intro!: bchan_wf_set_rx_pos simp: oldest_def)
  next
    case (2 p)
    then show ?thesis using assms(1) dom by (auto intro!: bchan_wf_set_rx_pos)
  next
    case (3 p)
    then show ?thesis using assms(1) by simp
  qed
qed

lemma bchan_wf_drop_rx: "bchan_wf c \<Longrightarrow> bchan_wf (bchan_drop_rx c r)"
  using set_alist_delete [of r "receivers c"]
  by (fastforce simp: bchan_wf_def bchan_drop_rx_def distinct_delete)

lemma bchan_wf_clone_tx: "bchan_wf c \<Longrightarrow> bchan_wf (bchan_clone_tx c)"
  by (simp add: bchan_wf_def bchan_clone_tx_def)

lemma bchan_wf_drop_tx: "bchan_wf c \<Longrightarrow> bchan_wf (bchan_drop_tx c)"
  by (simp add: bchan_wf_def bchan_drop_tx_def)

end
