(* ===== verification/Aggregator.thy ===== *)
theory Aggregator
  imports Storage Broadcast
begin

text \<open>
  The aggregation task of \<^verbatim>\<open>src/server/src/main.rs\<close>: the single consumer of the
  snapshot channel, which for each snapshot received replaces that exchange's book in the
  storage (\<open>orderbook_storage.update(orderbook.exchange, orderbook)\<close>), merges the
  storage into a summary and sends it on the summary channel. The loop is
  \<open>while let Ok(orderbook) = streams.stream.recv().await\<close>: any receive error ends it.
  A panic in \<open>merge\<close> ends the task as well. When the task ends it drops its receiver
  of the snapshot channel and its sender of the summary channel.
\<close>

datatype agg_phase = AggRunning | AggStopped recv_error | AggPanicked panic

record aggregator =
  agg_storage :: orderbook_storage
  agg_phase :: agg_phase
  agg_rx :: nat

text \<open>The body of the loop for one received snapshot.\<close>

definition agg_apply :: "orderbook_storage \<Rightarrow> order_book \<Rightarrow> orderbook_storage" where
  "agg_apply s ob = storage_update s (exchange ob) ob"

definition agg_start :: "nat \<Rightarrow> aggregator" where
  "agg_start r = \<lparr>agg_storage = storage_new, agg_phase = AggRunning, agg_rx = r\<rparr>"

text \<open>
  One iteration of the loop, on the snapshot channel \<open>upd\<close> and the summary channel
  \<open>out\<close>. The iteration order of the storage's \<open>HashMap\<close> in \<open>merge\<close> is chosen by
  the environment (\<open>order\<close>, a valid one). \<open>None\<close>: the task cannot move (it has
  ended, or \<open>recv\<close> is still waiting). The result of \<open>tx.send(summary)\<close> is only
  logged.
\<close>

definition agg_step ::
  "exchange list \<Rightarrow> aggregator \<Rightarrow> order_book bchan \<Rightarrow> summary bchan \<Rightarrow>
   (aggregator \<times> order_book bchan \<times> summary bchan) option" where
  "agg_step order a upd out =
     (if agg_phase a \<noteq> AggRunning then None
      else case bchan_recv upd (agg_rx a) of
        None \<Rightarrow> None
      | Some (upd', RecvOk ob) \<Rightarrow>
          (let s' = agg_apply (agg_storage a) ob in
           if \<not> hashmap_order s' order then None
           else case merge s' order of
             Inl p \<Rightarrow> Some (a\<lparr>agg_storage := s', agg_phase := AggPanicked p\<rparr>,
                           bchan_drop_rx upd' (agg_rx a), bchan_drop_tx out)
           | Inr r \<Rightarrow> Some (a\<lparr>agg_storage := s'\<rparr>, upd', fst (bchan_send out (summary_from r))))
      | Some (upd', RecvErr e) \<Rightarrow>
          Some (a\<lparr>agg_phase := AggStopped e\<rparr>, bchan_drop_rx upd' (agg_rx a), bchan_drop_tx out)
      | Some (upd', Pending) \<Rightarrow> None)"

declare agg_step_def [step_simps]

text \<open>The latest snapshot of an exchange in a sequence of snapshots.\<close>

definition latest :: "order_book list \<Rightarrow> exchange \<Rightarrow> order_book option" where
  "latest obs e = find (\<lambda>ob. exchange ob = e) (rev obs)"

definition example_update_sequence :: "order_book list" where
  "example_update_sequence =
     [example_binance_book, example_binance_book\<lparr>sequence := 2, bids := []\<rparr>]"

text \<open>Consecutive iterations of the loop, one iteration order per iteration.\<close>

fun agg_run ::
  "exchange list list \<Rightarrow> aggregator \<Rightarrow> order_book bchan \<Rightarrow> summary bchan \<Rightarrow>
   (aggregator \<times> order_book bchan \<times> summary bchan) option" where
  "agg_run [] a upd out = Some (a, upd, out)"
| "agg_run (order # orders) a upd out =
     (case agg_step order a upd out of
        None \<Rightarrow> None
      | Some (a', upd', out') \<Rightarrow> agg_run orders a' upd' out')"

text \<open>The storage after the first \<open>k + 1\<close> of the snapshots from position \<open>p\<close> on.\<close>

definition prefix_storage ::
  "orderbook_storage \<Rightarrow> order_book list \<Rightarrow> nat \<Rightarrow> nat \<Rightarrow> orderbook_storage" where
  "prefix_storage s obs p k = fold (\<lambda>ob s. agg_apply s ob) (take (Suc k) (drop p obs)) s"

text \<open>A snapshot channel on which seventeen snapshots have been sent while the
  aggregator (receiver 0) has read none of them.\<close>

definition example_lagging_channel :: "order_book bchan" where
  "example_lagging_channel =
     \<lparr>sent = replicate 17 example_binance_book, cap = 16, receivers = [(0, 0)], next_rx = 1, senders = 2\<rparr>"

definition example_single_channel :: "order_book bchan" where
  "example_single_channel =
     \<lparr>sent = [example_binance_book], cap = 16, receivers = [(0, 0)], next_rx = 1, senders = 2\<rparr>"

definition example_one_sided_channel :: "order_book bchan" where
  "example_one_sided_channel =
     \<lparr>sent = [example_binance_book\<lparr>asks := []\<rparr>], cap = 16, receivers = [(0, 0)], next_rx = 1, senders = 2\<rparr>"

subsection \<open>Storage after a sequence of updates\<close>

lemma fold_agg_apply:
  "data (fold (\<lambda>ob s. agg_apply s ob) obs s) e =
     (case latest obs e of None \<Rightarrow> data s e | Some ob \<Rightarrow> Some ob)"
proof (induction obs rule: rev_induct)
  case Nil
  then show ?case by (simp add: latest_def)
next
  case (snoc ob obs)
  then show ?case
    by (simp add: latest_def agg_apply_def storage_update_def split: option.splits)
qed

lemma prefix_storage_0:
  "p < length obs \<Longrightarrow> prefix_storage s obs p 0 = agg_apply s (obs ! p)"
  by (simp add: prefix_storage_def take_Suc_conv_app_nth)

lemma prefix_storage_shift:
  "p < length obs \<Longrightarrow> prefix_storage (agg_apply s (obs ! p)) obs (Suc p) k = prefix_storage s obs p (Suc k)"
  by (simp add: prefix_storage_def take_Suc_conv_app_nth Cons_nth_drop_Suc [symmetric])

lemma summaries_prefix_Cons:
  assumes "p < length obs" "merge (agg_apply s (obs ! p)) order = Inr r"
  shows "map (\<lambda>k. summary_from (projr (merge (prefix_storage s obs p k) ((order # orders) ! k))))
           [0..<length (order # orders)]
    = summary_from r # map (\<lambda>k. summary_from (projr (merge (prefix_storage (agg_apply s (obs ! p)) obs (Suc p) k)
                                                             (orders ! k))))
                         [0..<length orders]"
  using assms by (simp add: map_upt_Suc prefix_storage_0 prefix_storage_shift del: upt_Suc)

subsection \<open>One iteration\<close>

lemma agg_step_recv_ok:
  assumes "agg_phase a = AggRunning" and "rx_pos upd (agg_rx a) = Some p"
    and "oldest upd \<le> p" and "p < length (sent upd)"
    and "hashmap_order (agg_apply (agg_storage a) (sent upd ! p)) order"
    and "merge (agg_apply (agg_storage a) (sent upd ! p)) order = Inr r"
  shows "agg_step order a upd out =
           Some (a\<lparr>agg_storage := agg_apply (agg_storage a) (sent upd ! p)\<rparr>,
                 set_rx_pos upd (agg_rx a) (Suc p), fst (bchan_send out (summary_from r)))"
  using assms by (simp add: agg_step_def bchan_recv_def)

text \<open>An iteration after which the loop still runs has read a snapshot and published
  the merge.\<close>

lemma agg_step_running:
  assumes "agg_step order a upd out = Some (a', upd', out')" "agg_phase a' = AggRunning"
  shows "\<exists>p r. agg_phase a = AggRunning \<and> rx_pos upd (agg_rx a) = Some p \<and> oldest upd \<le> p \<and> p < length (sent upd)
    \<and> hashmap_order (agg_apply (agg_storage a) (sent upd ! p)) order
    \<and> merge (agg_apply (agg_storage a) (sent upd ! p)) order = Inr r
    \<and> a' = a\<lparr>agg_storage := agg_apply (agg_storage a) (sent upd ! p)\<rparr>
    \<and> upd' = set_rx_pos upd (agg_rx a) (Suc p) \<and> out' = fst (bchan_send out (summary_from r))"
proof -
  obtain c1 res where r: "bchan_recv upd (agg_rx a) = Some (c1, res)" and run: "agg_phase a = AggRunning"
    using assms(1) by (auto simp: agg_step_def split: if_splits option.splits)
  from r show ?thesis
  proof (cases rule: bchan_recv_Some)
    case (2 p)
    then show ?thesis using assms r run by (auto simp: agg_step_def Let_def split: if_splits sum.splits)
  qed (use assms r run in \<open>auto simp: agg_step_def split: if_splits\<close>)
qed

lemma receivers_bchan_send: "receivers (fst (bchan_send c v)) = receivers c"
  by (simp add: bchan_send_def)

lemma sent_bchan_send: "receivers c \<noteq> [] \<Longrightarrow> sent (fst (bchan_send c v)) = sent c @ [v]"
  by (simp add: bchan_send_def)

subsection \<open>Properties of the aggregation loop\<close>

text \<open>
  C16. The storage keeps exactly the latest snapshot of each exchange: after the loop has
  applied a sequence of snapshots to the empty storage, an exchange maps to its last
  snapshot in the sequence, and an exchange that sent none is absent; old and new levels
  of one exchange are never mixed.
\<close>

theorem agg_storage_latest:
  "data (fold (\<lambda>ob s. agg_apply s ob) obs storage_new) = latest obs"
  by (rule ext) (simp add: fold_agg_apply storage_new_def split: option.splits)

text \<open>
  C17. The loop publishes one summary per snapshot: from a running aggregator that has
  not lagged, with \<open>n\<close> snapshots waiting, \<open>n\<close> iterations apply them in order and send
  on the summary channel, in order, the merge of the storage after each of them; the
  storage ends as the storage after all of them.
\<close>

theorem agg_run_publishes:
  assumes "agg_phase a = AggRunning" and "rx_pos upd (agg_rx a) = Some p"
    and "oldest upd \<le> p" and "p + length orders \<le> length (sent upd)"
    and "receivers out \<noteq> []"
    and "\<forall>k < length orders.
           hashmap_order (prefix_storage (agg_storage a) (sent upd) p k) (orders ! k)
         \<and> (\<exists>r. merge (prefix_storage (agg_storage a) (sent upd) p k) (orders ! k) = Inr r)"
  shows "\<exists>a' upd' out'. agg_run orders a upd out = Some (a', upd', out')
           \<and> agg_phase a' = AggRunning
           \<and> agg_storage a' = fold (\<lambda>ob s. agg_apply s ob) (take (length orders) (drop p (sent upd))) (agg_storage a)
           \<and> sent out' = sent out @ map (\<lambda>k. summary_from (projr (merge (prefix_storage (agg_storage a) (sent upd) p k) (orders ! k))))
                                   [0..<length orders]"
  using assms
proof (induction orders arbitrary: a p upd out)
  case Nil
  then show ?case by simp
next
  case (Cons order orders)
  let ?ob = "sent upd ! p"
  let ?s = "agg_apply (agg_storage a) ?ob"
  have p: "p < length (sent upd)" using Cons.prems(4) by simp
  from Cons.prems(6) obtain r where h: "hashmap_order ?s order" and m: "merge ?s order = Inr r"
    by (auto simp: prefix_storage_0 [OF p] elim!: allE [of _ 0])
  have step: "agg_step order a upd out =
      Some (a\<lparr>agg_storage := ?s\<rparr>, set_rx_pos upd (agg_rx a) (Suc p), fst (bchan_send out (summary_from r)))"
    by (rule agg_step_recv_ok [OF Cons.prems(1-3) p h m])
  let ?a = "a\<lparr>agg_storage := ?s\<rparr>" and ?upd = "set_rx_pos upd (agg_rx a) (Suc p)"
    and ?out = "fst (bchan_send out (summary_from r))"
  have ih_prems: "\<forall>k < length orders.
           hashmap_order (prefix_storage (agg_storage ?a) (sent ?upd) (Suc p) k) (orders ! k)
         \<and> (\<exists>r. merge (prefix_storage (agg_storage ?a) (sent ?upd) (Suc p) k) (orders ! k) = Inr r)"
    using Cons.prems(6) by (auto simp: prefix_storage_shift [OF p])
  have "oldest ?upd \<le> Suc p" using Cons.prems(3) by simp
  moreover have "Suc p + length orders \<le> length (sent ?upd)" using Cons.prems(4) by simp
  moreover have "receivers ?out \<noteq> []" using Cons.prems(5) by (simp add: receivers_bchan_send)
  ultimately obtain a' upd' out' where
    run: "agg_run orders ?a ?upd ?out = Some (a', upd', out')" and ph: "agg_phase a' = AggRunning"
    and st: "agg_storage a' = fold (\<lambda>ob s. agg_apply s ob) (take (length orders) (drop (Suc p) (sent upd))) ?s"
    and so: "sent out' = sent ?out @ map (\<lambda>k. summary_from (projr (merge (prefix_storage ?s (sent upd) (Suc p) k) (orders ! k))))
                                   [0..<length orders]"
    using Cons.IH [where a = ?a and p = "Suc p" and upd = ?upd and out = ?out] Cons.prems(1,2) ih_prems by auto
  have "take (length (order # orders)) (drop p (sent upd)) = ?ob # take (length orders) (drop (Suc p) (sent upd))"
    using p by (simp add: Cons_nth_drop_Suc [symmetric])
  moreover note summaries_prefix_Cons [OF p m]
  ultimately show ?case
    using run ph st so step Cons.prems(5) by (simp add: sent_bchan_send)
qed

theorem agg_run_publishes_witness:
  "\<exists>a' upd' out'. agg_run [[Binance]] (agg_start 0) example_single_channel (bchan_new 16) = Some (a', upd', out')
      \<and> agg_phase a' = AggRunning"
proof -
  have h: "\<forall>k < length [[Binance]].
           hashmap_order (prefix_storage (agg_storage (agg_start 0)) (sent example_single_channel) 0 k) ([[Binance]] ! k)
         \<and> (\<exists>r. merge (prefix_storage (agg_storage (agg_start 0)) (sent example_single_channel) 0 k) ([[Binance]] ! k) = Inr r)"
    by (simp add: prefix_storage_def agg_apply_def agg_start_def example_single_channel_def hashmap_order_def storage_update_def
        storage_new_def merge_def merge_by_def hashmap_entries_def map_filter_simps tag_levels_def
        example_binance_book_def vec_index_def)
  have "agg_phase (agg_start 0) = AggRunning" "rx_pos example_single_channel (agg_rx (agg_start 0)) = Some 0"
    "oldest example_single_channel \<le> 0" "0 + length [[Binance]] \<le> length (sent example_single_channel)"
    "receivers (bchan_new 16 :: summary bchan) \<noteq> []"
    by (simp_all add: agg_start_def example_single_channel_def rx_pos_def oldest_def bchan_new_def)
  from agg_run_publishes [OF this h] show ?thesis by blast
qed

text \<open>
  C18. A lagging aggregator stops for good: when more snapshots than the channel's
  capacity have been sent since its last read, \<open>recv\<close> returns \<open>Lagged\<close>, the
  \<open>while let Ok(..)\<close> loop exits, the task drops its channel ends, and it never
  publishes another summary, although the connectors go on sending.
\<close>

theorem agg_stops_on_lag:
  assumes "agg_phase a = AggRunning" and "rx_pos upd (agg_rx a) = Some p" and "p < oldest upd"
  shows "agg_step order a upd out =
           Some (a\<lparr>agg_phase := AggStopped (Lagged (oldest upd - p))\<rparr>,
                 bchan_drop_rx (set_rx_pos upd (agg_rx a) (oldest upd)) (agg_rx a), bchan_drop_tx out)
         \<and> (\<forall>order' upd' out'. agg_step order' (a\<lparr>agg_phase := AggStopped (Lagged (oldest upd - p))\<rparr>) upd' out' = None)"
  using assms by (simp add: agg_step_def bchan_recv_def)

theorem agg_stops_on_lag_witness:
  "agg_step [Binance] (agg_start 0) example_lagging_channel (bchan_new 16) =
     Some ((agg_start 0)\<lparr>agg_phase := AggStopped (Lagged 1)\<rparr>,
           bchan_drop_rx (set_rx_pos example_lagging_channel 0 1) 0, bchan_drop_tx (bchan_new 16))"
proof -
  have "agg_phase (agg_start 0) = AggRunning" "rx_pos example_lagging_channel (agg_rx (agg_start 0)) = Some 0"
    "0 < oldest example_lagging_channel"
    by (simp_all add: agg_start_def example_lagging_channel_def rx_pos_def oldest_def)
  from agg_stops_on_lag [OF this, of "[Binance]" "bchan_new 16"] show ?thesis
    by (simp add: example_lagging_channel_def oldest_def agg_start_def)
qed

text \<open>
  C19. A storage with no ask or no bid panics the aggregation task: when, after a
  snapshot is applied, no stored book has an ask (or none has a bid), \<open>merged_asks[0]\<close>
  or \<open>merged_bids[0]\<close> indexes an empty vector, the task panics with nothing published,
  and its channel ends are dropped.
\<close>

theorem agg_panics_on_one_sided_storage:
  assumes "agg_phase a = AggRunning" and "rx_pos upd (agg_rx a) = Some p"
    and "oldest upd \<le> p" and "p < length (sent upd)"
    and "hashmap_order (agg_apply (agg_storage a) (sent upd ! p)) order"
    and "(\<forall>e ob. data (agg_apply (agg_storage a) (sent upd ! p)) e = Some ob \<longrightarrow> asks ob = [])
         \<or> (\<forall>e ob. data (agg_apply (agg_storage a) (sent upd ! p)) e = Some ob \<longrightarrow> bids ob = [])"
  shows "agg_step order a upd out =
           Some (a\<lparr>agg_storage := agg_apply (agg_storage a) (sent upd ! p), agg_phase := AggPanicked (PanicIndex 0 0)\<rparr>,
                 bchan_drop_rx (set_rx_pos upd (agg_rx a) (Suc p)) (agg_rx a), bchan_drop_tx out)
         \<and> sent (bchan_drop_tx out) = sent out"
proof -
  have "merge (agg_apply (agg_storage a) (sent upd ! p)) order = Inl (PanicIndex 0 0)"
    using merge_by_Inl_iff [OF is_sort_by_key_sort_key is_sort_by_key_sort_key assms(5)] assms(6)
    by (simp add: merge_def)
  then show ?thesis using assms(1-5) by (simp add: agg_step_def bchan_recv_def bchan_drop_tx_def)
qed

theorem agg_panics_on_one_sided_storage_witness:
  "\<exists>a' upd' out'. agg_step [Binance] (agg_start 0) example_one_sided_channel (bchan_new 16) = Some (a', upd', out')
      \<and> agg_phase a' = AggPanicked (PanicIndex 0 0) \<and> sent out' = []"
proof -
  let ?s = "agg_apply (agg_storage (agg_start 0)) (sent example_one_sided_channel ! 0)"
  have "agg_phase (agg_start 0) = AggRunning" "rx_pos example_one_sided_channel (agg_rx (agg_start 0)) = Some 0"
    "oldest example_one_sided_channel \<le> 0" "0 < length (sent example_one_sided_channel)"
    "hashmap_order ?s [Binance]"
    "(\<forall>e ob. data ?s e = Some ob \<longrightarrow> asks ob = []) \<or> (\<forall>e ob. data ?s e = Some ob \<longrightarrow> bids ob = [])"
    by (simp_all add: agg_start_def example_one_sided_channel_def rx_pos_def oldest_def agg_apply_def
        storage_update_def storage_new_def hashmap_order_def example_binance_book_def)
  from agg_panics_on_one_sided_storage [OF this, of "bchan_new 16"] show ?thesis
    by (simp add: bchan_new_def)
qed

end
