(* ===== verification/Drain.thy ===== *)
theory Drain
  imports Aggregator
begin

text \<open>
  The aggregation loop of \<^verbatim>\<open>src/server/src/main.rs\<close> run while it has something to
  read: \<open>agg_drain\<close> repeats the iterations of \<open>agg_step\<close> until \<open>recv\<close> would wait or
  the loop has ended, with the \<open>HashMap\<close>'s iteration order given, for each storage, by
  \<open>ho\<close>. It returns the orders it used and the final state. It is a \<open>function\<close> whose
  termination measure is the number of snapshots not yet read: every iteration after
  which the loop still runs reads one.
\<close>

definition next_order ::
  "(orderbook_storage \<Rightarrow> exchange list) \<Rightarrow> aggregator \<Rightarrow> order_book bchan \<Rightarrow> exchange list" where
  "next_order ho a upd =
     (case bchan_recv upd (agg_rx a) of Some (c, RecvOk ob) \<Rightarrow> ho (agg_apply (agg_storage a) ob) | _ \<Rightarrow> [])"

function agg_drain ::
  "(orderbook_storage \<Rightarrow> exchange list) \<Rightarrow> aggregator \<Rightarrow> order_book bchan \<Rightarrow> summary bchan \<Rightarrow>
   exchange list list \<times> aggregator \<times> order_book bchan \<times> summary bchan" where
  "agg_drain ho a upd out =
     (case agg_step (next_order ho a upd) a upd out of
        None \<Rightarrow> ([], a, upd, out)
      | Some (a', upd', out') \<Rightarrow>
          if agg_phase a' = AggRunning
          then (case agg_drain ho a' upd' out' of (os, r) \<Rightarrow> (next_order ho a upd # os, r))
          else ([next_order ho a upd], a', upd', out'))"
  by pat_completeness auto
termination
  by (relation "measure (\<lambda>(ho, a, upd, out). length (sent upd) - the (rx_pos upd (agg_rx a)))")
     (auto dest!: agg_step_running)

declare agg_drain.simps [simp del]

text \<open>One valid iteration order: the keys in declaration order.\<close>

definition key_order :: "orderbook_storage \<Rightarrow> exchange list" where
  "key_order s = filter (\<lambda>e. data s e \<noteq> None) [Binance, Bitstamp]"

section \<open>Properties of the loop\<close>


lemma key_order_sorted_keys: "key_order s = sorted_list_of_set (dom (data s))"
proof -
  have "set (key_order s) = dom (data s)"
  proof (rule set_eqI)
    fix e show "e \<in> set (key_order s) \<longleftrightarrow> e \<in> dom (data s)" by (cases e) (auto simp: key_order_def)
  qed
  moreover have "sorted (key_order s)" "distinct (key_order s)"
    by (simp_all add: key_order_def less_eq_exchange_def)
  ultimately show ?thesis by (metis sorted_list_of_set.idem_if_sorted_distinct)
qed

lemma key_order_valid: "hashmap_order s (key_order s)"
  by (simp add: key_order_sorted_keys hashmap_order_sorted_keys)

lemma agg_drain_cases:
  obtains (wait) "agg_step (next_order ho a upd) a upd out = None" "agg_drain ho a upd out = ([], a, upd, out)"
  | (step) a1 u1 o1 where "agg_step (next_order ho a upd) a upd out = Some (a1, u1, o1)"
      "agg_phase a1 = AggRunning"
      "agg_drain ho a upd out = (next_order ho a upd # fst (agg_drain ho a1 u1 o1), snd (agg_drain ho a1 u1 o1))"
  | (stop) a1 u1 o1 where "agg_step (next_order ho a upd) a upd out = Some (a1, u1, o1)"
      "agg_phase a1 \<noteq> AggRunning" "agg_drain ho a upd out = ([next_order ho a upd], a1, u1, o1)"
proof (cases "agg_step (next_order ho a upd) a upd out")
  case None
  then show ?thesis by (intro wait) (simp_all add: agg_drain.simps [of ho a upd out])
next
  case (Some x)
  then obtain a1 u1 o1 where x: "agg_step (next_order ho a upd) a upd out = Some (a1, u1, o1)"
    by (metis prod_cases3)
  show ?thesis
  proof (cases "agg_phase a1 = AggRunning")
    case True
    then show ?thesis
      using x by (intro step [of a1 u1 o1]) (simp_all add: agg_drain.simps [of ho a upd out] case_prod_beta)
  next
    case False
    then show ?thesis using x by (intro stop [of a1 u1 o1]) (simp_all add: agg_drain.simps [of ho a upd out])
  qed
qed

lemma agg_drain_run:
  "agg_run (fst (agg_drain ho a upd out)) a upd out = Some (snd (agg_drain ho a upd out))"
proof (induction ho a upd out rule: agg_drain.induct)
  case (1 ho a upd out)
  show ?case
  proof (cases rule: agg_drain_cases [of ho a upd out])
    case (step a1 u1 o1)
    then show ?thesis using "1" by simp
  qed simp_all
qed

lemma agg_drain_length:
  "rx_pos upd (agg_rx a) = Some p \<Longrightarrow> length (fst (agg_drain ho a upd out)) \<le> Suc (length (sent upd) - p)"
proof (induction ho a upd out arbitrary: p rule: agg_drain.induct)
  case (1 ho a upd out)
  show ?case
  proof (cases rule: agg_drain_cases [of ho a upd out])
    case (step a1 u1 o1)
    obtain q r where q: "rx_pos upd (agg_rx a) = Some q" "q < length (sent upd)"
      "a1 = a\<lparr>agg_storage := agg_apply (agg_storage a) (sent upd ! q)\<rparr>" "u1 = set_rx_pos upd (agg_rx a) (Suc q)"
      using agg_step_running [OF step(1,2)] by blast
    have "length (fst (agg_drain ho a1 u1 o1)) \<le> Suc (length (sent u1) - Suc q)"
      using "1.IH" [of "(a1, u1, o1)" a1 "(u1, o1)" u1 o1 "Suc q"] step q by simp
    then show ?thesis using step q "1.prems" by simp
  qed simp_all
qed

lemma agg_step_wait:
  assumes "\<forall>s. hashmap_order s (ho s)" "agg_step (next_order ho a upd) a upd out = None"
  shows "agg_step order a upd out = None"
  using assms
  by (auto simp: agg_step_def next_order_def Let_def split: if_splits option.splits recv_result.splits sum.splits)

lemma agg_drain_final:
  assumes "\<forall>s. hashmap_order s (ho s)"
  shows "agg_phase (fst (snd (agg_drain ho a upd out))) \<noteq> AggRunning
      \<or> (\<forall>order. agg_step order (fst (snd (agg_drain ho a upd out))) (fst (snd (snd (agg_drain ho a upd out))))
                   (snd (snd (snd (agg_drain ho a upd out)))) = None)"
  using assms
proof (induction ho a upd out rule: agg_drain.induct)
  case (1 ho a upd out)
  show ?case
  proof (cases rule: agg_drain_cases [of ho a upd out])
    case wait
    then show ?thesis using agg_step_wait [OF "1.prems"] by simp
  next
    case (step a1 u1 o1)
    then show ?thesis using "1" by simp
  qed simp
qed

lemma bchan_recv_at:
  assumes "rx_pos c r = Some p" "oldest c \<le> p"
  shows "p < length (sent c) \<Longrightarrow> bchan_recv c r = Some (set_rx_pos c r (Suc p), RecvOk (sent c ! p))"
    and "length (sent c) \<le> p \<Longrightarrow> bchan_recv c r = Some (c, if senders c = 0 then RecvErr Closed else Pending)"
  using assms by (simp_all add: bchan_recv_def)

lemma example_drain:
  obtains r where
    "agg_drain key_order (agg_start 0) example_single_channel (bchan_new 16) =
       ([key_order (agg_apply storage_new example_binance_book)],
        (agg_start 0)\<lparr>agg_storage := agg_apply storage_new example_binance_book\<rparr>,
        set_rx_pos example_single_channel 0 (Suc 0), fst (bchan_send (bchan_new 16) (summary_from r)))"
proof -
  let ?s = "agg_apply storage_new example_binance_book"
  obtain r where m: "merge ?s (key_order ?s) = Inr r"
    by (simp add: agg_apply_def key_order_def storage_update_def storage_new_def merge_def merge_by_def
        hashmap_entries_def map_filter_simps tag_levels_def example_binance_book_def vec_index_def)
  have rx: "rx_pos example_single_channel (agg_rx (agg_start 0)) = Some 0"
    and old: "oldest example_single_channel \<le> 0" and len: "0 < length (sent example_single_channel)"
    by (simp_all add: agg_start_def example_single_channel_def rx_pos_def oldest_def)
  have ob: "sent example_single_channel ! 0 = example_binance_book"
    by (simp add: example_single_channel_def)
  have no: "next_order key_order (agg_start 0) example_single_channel = key_order ?s"
    using bchan_recv_at(1) [OF rx old len] by (simp add: next_order_def ob agg_start_def)
  have s1: "agg_step (key_order ?s) (agg_start 0) example_single_channel (bchan_new 16) =
      Some ((agg_start 0)\<lparr>agg_storage := ?s\<rparr>, set_rx_pos example_single_channel 0 (Suc 0),
            fst (bchan_send (bchan_new 16) (summary_from r)))"
    using agg_step_recv_ok [OF _ rx old len _ , of "key_order ?s" r "bchan_new 16"] m
    by (simp add: ob key_order_valid agg_start_def)
  have w: "bchan_recv (set_rx_pos example_single_channel 0 (Suc 0)) 0 = Some (set_rx_pos example_single_channel 0 (Suc 0), Pending)"
    by (simp add: bchan_recv_def oldest_def example_single_channel_def)
  have s2: "agg_step order ((agg_start 0)\<lparr>agg_storage := ?s\<rparr>) (set_rx_pos example_single_channel 0 (Suc 0)) o1 = None"
    for order o1 using w by (simp add: agg_step_def agg_start_def)
  have ph: "agg_phase ((agg_start 0)\<lparr>agg_storage := ?s\<rparr>) = AggRunning" by (simp add: agg_start_def)
  have d2: "agg_drain key_order ((agg_start 0)\<lparr>agg_storage := ?s\<rparr>) (set_rx_pos example_single_channel 0 (Suc 0))
      (fst (bchan_send (bchan_new 16) (summary_from r))) =
      ([], (agg_start 0)\<lparr>agg_storage := ?s\<rparr>, set_rx_pos example_single_channel 0 (Suc 0),
       fst (bchan_send (bchan_new 16) (summary_from r)))"
    by (subst agg_drain.simps) (simp add: s2)
  show ?thesis
    by (rule that [of r], subst agg_drain.simps) (simp add: no s1 ph d2)
qed

lemma agg_step_unread:
  assumes "\<forall>s. hashmap_order s (ho s)" "agg_phase a = AggRunning" "rx_pos upd (agg_rx a) = Some p"
    "oldest upd \<le> p" "p < length (sent upd)"
  shows "\<exists>a1 u1 o1. agg_step (next_order ho a upd) a upd out = Some (a1, u1, o1)
           \<and> (agg_phase a1 = AggRunning \<or> (\<exists>q. agg_phase a1 = AggPanicked q))"
proof -
  note r = bchan_recv_at(1) [OF assms(3,4,5)]
  have "hashmap_order (agg_apply (agg_storage a) (sent upd ! p)) (next_order ho a upd)"
    using assms(1) r by (simp add: next_order_def)
  then show ?thesis
    using assms(2) r
    by (cases "merge (agg_apply (agg_storage a) (sent upd ! p)) (next_order ho a upd)") (simp_all add: agg_step_def)
qed

lemma agg_step_all_read:
  assumes "agg_phase a = AggRunning" "rx_pos upd (agg_rx a) = Some p" "oldest upd \<le> p" "length (sent upd) \<le> p"
    and "agg_step order a upd out = Some (a1, u1, o1)"
  shows "a1 = a\<lparr>agg_phase := AggStopped Closed\<rparr> \<and> o1 = bchan_drop_tx out"
proof -
  have "bchan_recv upd (agg_rx a) = Some (upd, if senders upd = 0 then RecvErr Closed else Pending)"
    using bchan_recv_at(2) [OF assms(2-4)] .
  then show ?thesis using assms(1,5) by (auto simp: agg_step_def split: if_splits)
qed

lemma agg_step_continue:
  assumes "agg_step order a upd out = Some (a1, u1, o1)" "agg_phase a1 = AggRunning"
    "rx_pos upd (agg_rx a) = Some p" "oldest upd \<le> p" "receivers out \<noteq> []"
  shows "p < length (sent upd) \<and> agg_storage a1 = agg_apply (agg_storage a) (sent upd ! p)
    \<and> rx_pos u1 (agg_rx a1) = Some (Suc p) \<and> oldest u1 \<le> Suc p \<and> sent u1 = sent upd
    \<and> receivers o1 \<noteq> [] \<and> length (sent o1) = Suc (length (sent out))"
proof -
  obtain q r where q: "rx_pos upd (agg_rx a) = Some q" "q < length (sent upd)"
    "a1 = a\<lparr>agg_storage := agg_apply (agg_storage a) (sent upd ! q)\<rparr>" "u1 = set_rx_pos upd (agg_rx a) (Suc q)"
    "o1 = fst (bchan_send out (summary_from r))"
    using agg_step_running [OF assms(1,2)] by blast
  have "q = p" using q(1) assms(3) by simp
  then show ?thesis
    using q assms(4,5) by (simp add: rx_pos_Some_receivers receivers_bchan_send sent_bchan_send)
qed

text \<open>
  C37: the aggregation loop, run on what has been sent so far, terminates: after at most
  one iteration per unread snapshot and one more, it has ended or reached a \<open>recv\<close> that
  waits, whatever the storage and the channels.
\<close>

theorem aggregation_loop_reaches_wait:
  assumes "\<forall>s. hashmap_order s (ho s)" "rx_pos upd (agg_rx a) = Some p"
  shows "\<exists>orders a' upd' out'. length orders \<le> Suc (length (sent upd) - p)
    \<and> agg_run orders a upd out = Some (a', upd', out')
    \<and> (agg_phase a' \<noteq> AggRunning \<or> (\<forall>order. agg_step order a' upd' out' = None))"
  using agg_drain_run [of ho a upd out] agg_drain_length [OF assms(2), of ho out]
    agg_drain_final [OF assms(1), of a upd out]
  by (metis prod.collapse)

theorem aggregation_loop_reaches_wait_witness:
  "\<exists>orders a' upd' out'. length orders \<le> 2
    \<and> agg_run orders (agg_start 0) example_single_channel (bchan_new 16) = Some (a', upd', out')
    \<and> (agg_phase a' \<noteq> AggRunning \<or> (\<forall>order. agg_step order a' upd' out' = None))"
proof -
  have h: "\<forall>s. hashmap_order s (key_order s)" by (simp add: key_order_valid)
  have r: "rx_pos example_single_channel (agg_rx (agg_start 0)) = Some 0"
    by (simp add: rx_pos_def example_single_channel_def agg_start_def)
  show ?thesis
    using aggregation_loop_reaches_wait [OF h r, of "bchan_new 16"]
    by (simp add: example_single_channel_def numeral_2_eq_2)
qed

text \<open>
  C38: unless a merge panics, the loop of a task that has not fallen behind reads every
  snapshot sent: when it waits or finds the channel closed, its storage is the unread
  snapshots applied in order and it has published one summary per snapshot read.
\<close>

theorem aggregation_loop_reads_every_snapshot:
  assumes "\<forall>s. hashmap_order s (ho s)" "agg_phase a = AggRunning" "rx_pos upd (agg_rx a) = Some p"
    "oldest upd \<le> p" "receivers out \<noteq> []"
    and "agg_drain ho a upd out = (orders, a', upd', out')" "\<forall>q. agg_phase a' \<noteq> AggPanicked q"
  shows "agg_storage a' = fold (\<lambda>ob s. agg_apply s ob) (drop p (sent upd)) (agg_storage a)
    \<and> length (sent out') = length (sent out) + (length (sent upd) - p)
    \<and> (agg_phase a' = AggRunning \<or> agg_phase a' = AggStopped Closed)
    \<and> agg_run orders a upd out = Some (a', upd', out')"
  using assms
proof (induction ho a upd out arbitrary: p orders a' upd' out' rule: agg_drain.induct)
  case (1 ho a upd out)
  note pr = "1.prems"
  have run: "agg_run orders a upd out = Some (a', upd', out')"
    using agg_drain_run [of ho a upd out] pr(6) by simp
  show ?case
  proof (cases rule: agg_drain_cases [of ho a upd out])
    case wait
    have "\<not> p < length (sent upd)"
      using agg_step_unread [where out = out, OF pr(1-4)] wait(1) by auto
    then show ?thesis using wait pr run by simp
  next
    case (step a1 u1 o1)
    note c = agg_step_continue [OF step(1,2) pr(3-5)]
    have d1: "agg_drain ho a1 u1 o1 = (fst (agg_drain ho a1 u1 o1), a', upd', out')"
      using step(3) pr(6) by (metis prod.collapse prod.inject)
    have ih: "agg_storage a' = fold (\<lambda>ob s. agg_apply s ob) (drop (Suc p) (sent u1)) (agg_storage a1)
      \<and> length (sent out') = length (sent o1) + (length (sent u1) - Suc p)
      \<and> (agg_phase a' = AggRunning \<or> agg_phase a' = AggStopped Closed)"
      using c "1.IH" [of "(a1, u1, o1)" a1 "(u1, o1)" u1 o1 "Suc p" "fst (agg_drain ho a1 u1 o1)" a' upd' out',
          OF step(1) refl refl step(2) pr(1) step(2) _ _ _ d1 pr(7)]
      by simp
    then show ?thesis
      using c run by (auto simp: Cons_nth_drop_Suc [symmetric])
  next
    case (stop a1 u1 o1)
    have ge: "\<not> p < length (sent upd)"
      using agg_step_unread [where out = out, OF pr(1-4)] stop pr(6,7) by auto
    then have "a1 = a\<lparr>agg_phase := AggStopped Closed\<rparr> \<and> o1 = bchan_drop_tx out"
      using agg_step_all_read [OF pr(2-4) _ stop(1)] by simp
    then show ?thesis using stop pr ge run by (simp add: bchan_drop_tx_def)
  qed
qed

theorem aggregation_loop_reads_every_snapshot_witness:
  "case agg_drain key_order (agg_start 0) example_single_channel (bchan_new 16) of (orders, a', upd', out') \<Rightarrow>
     agg_storage a' = agg_apply storage_new example_binance_book \<and> length (sent out') = 1
     \<and> (agg_phase a' = AggRunning \<or> agg_phase a' = AggStopped Closed)
     \<and> agg_run orders (agg_start 0) example_single_channel (bchan_new 16) = Some (a', upd', out')"
proof -
  obtain orders a' upd' out' where d:
    "agg_drain key_order (agg_start 0) example_single_channel (bchan_new 16) = (orders, a', upd', out')"
    by (metis prod_cases4)
  have np: "\<forall>q. agg_phase a' \<noteq> AggPanicked q"
    using d by (cases rule: example_drain) (simp add: agg_start_def)
  have h: "\<forall>s. hashmap_order s (key_order s)" by (simp add: key_order_valid)
  have "agg_phase (agg_start 0) = AggRunning" "rx_pos example_single_channel (agg_rx (agg_start 0)) = Some 0"
    "oldest example_single_channel \<le> 0" "receivers (bchan_new 16 :: summary bchan) \<noteq> []"
    by (simp_all add: agg_start_def example_single_channel_def rx_pos_def oldest_def bchan_new_def)
  from aggregation_loop_reads_every_snapshot [OF h this d np] show ?thesis
    unfolding d by (simp add: example_single_channel_def bchan_new_def agg_start_def)
qed

end
