(* ===== verification/Service.thy ===== *)
theory Service
  imports Storage Broadcast
begin

text \<open>
  The gRPC service of \<^verbatim>\<open>src/server/src/lib.rs\<close>: \<open>book_summary\<close> subscribes a new
  receiver (\<open>watcher\<close>) to the summary channel and spawns a forwarding task,
  \<open>while let Ok(message) = watcher.recv().await { if response_tx.send(Ok(message)).await.is_err() { break } }\<close>,
  whose output channel is the client's stream. The forwarder is a step function over the
  results of its two await points; \<open>delivered\<close> is what it has handed to the client's
  stream, in order. When the task ends it drops its receiver.
\<close>

datatype fw_phase = FwRecv | FwSend summary | FwDone

record forwarder =
  fw_rx :: nat
  fw_phase :: fw_phase
  delivered :: "summary list"

definition book_summary :: "summary bchan \<Rightarrow> summary bchan \<times> forwarder" where
  "book_summary c =
     (case bchan_subscribe c of (c', r) \<Rightarrow> (c', \<lparr>fw_rx = r, fw_phase = FwRecv, delivered = []\<rparr>))"

text \<open>The await points: \<open>watcher.recv()\<close> is ready (\<open>FwWake\<close>), \<open>response_tx.send\<close>
  completes, \<open>False\<close> when the client is gone.\<close>

datatype fw_input = FwWake | FwSendResult bool

definition forward_step :: "forwarder \<Rightarrow> summary bchan \<Rightarrow> fw_input \<Rightarrow> (forwarder \<times> summary bchan) option" where
  "forward_step f c x =
     (case fw_phase f of
        FwRecv \<Rightarrow>
          (case x of
             FwWake \<Rightarrow>
               (case bchan_recv c (fw_rx f) of
                  None \<Rightarrow> None
                | Some (c', RecvOk m) \<Rightarrow> Some (f\<lparr>fw_phase := FwSend m\<rparr>, c')
                | Some (c', RecvErr e) \<Rightarrow> Some (f\<lparr>fw_phase := FwDone\<rparr>, bchan_drop_rx c' (fw_rx f))
                | Some (c', Pending) \<Rightarrow> None)
           | _ \<Rightarrow> None)
      | FwSend m \<Rightarrow>
          (case x of
             FwSendResult ok \<Rightarrow>
               if ok then Some (f\<lparr>fw_phase := FwRecv, delivered := delivered f @ [m]\<rparr>, c)
               else Some (f\<lparr>fw_phase := FwDone\<rparr>, bchan_drop_rx c (fw_rx f))
           | _ \<Rightarrow> None)
      | FwDone \<Rightarrow> None)"

declare forward_step_def [step_simps]

fun forward_run :: "forwarder \<Rightarrow> summary bchan \<Rightarrow> fw_input list \<Rightarrow> (forwarder \<times> summary bchan) option" where
  "forward_run f c [] = Some (f, c)"
| "forward_run f c (x # xs) =
     (case forward_step f c x of None \<Rightarrow> None | Some (f', c') \<Rightarrow> forward_run f' c' xs)"

text \<open>
  Everything else that can happen to the summary channel while one forwarder runs: the
  aggregation task publishes, another client subscribes, another receiver reads or is
  dropped, or the forwarder itself steps. Receiver 0 is the one \<open>broadcast::channel(16)\<close>
  returned in \<open>main\<close>; the service keeps it in its \<open>receiver\<close> field for the life of the
  server and never reads it, so no task drops it (in the whole server this is proved, not
  assumed: \<open>rx_inv\<close> of \<open>Server\<close>).
\<close>

inductive svc_step :: "summary bchan \<times> forwarder \<Rightarrow> summary bchan \<times> forwarder \<Rightarrow> bool" where
  publish: "svc_step (c, f) (fst (bchan_send c v), f)"
| subscribe: "svc_step (c, f) (fst (bchan_subscribe c), f)"
| other_recv: "r \<noteq> fw_rx f \<Longrightarrow> bchan_recv c r = Some (c', res) \<Longrightarrow> svc_step (c, f) (c', f)"
| other_drop: "r \<noteq> fw_rx f \<Longrightarrow> r \<noteq> 0 \<Longrightarrow> svc_step (c, f) (bchan_drop_rx c r, f)"
| forward: "forward_step f c x = Some (f', c') \<Longrightarrow> svc_step (c, f) (c', f')"

text \<open>
  The invariant of a forwarder subscribed when \<open>pre\<close> had been published: what was
  published before stays as it was; the forwarder has delivered published summaries at
  strictly increasing positions, none before its subscription; its read position (or the
  one of the summary it is writing) lies past them all.
\<close>

definition fw_inv :: "summary list \<Rightarrow> summary bchan \<times> forwarder \<Rightarrow> bool" where
  "fw_inv pre cf \<longleftrightarrow> (case cf of (c, f) \<Rightarrow>
     take (length pre) (sent c) = pre \<and> length pre \<le> length (sent c) \<and> fw_rx f < next_rx c \<and>
     (\<exists>js. delivered f = map (\<lambda>j. sent c ! j) js \<and> sorted_wrt (<) js
        \<and> (\<forall>j\<in>set js. length pre \<le> j \<and> j < length (sent c))
        \<and> (case fw_phase f of
             FwRecv \<Rightarrow> \<exists>p. rx_pos c (fw_rx f) = Some p \<and> length pre \<le> p \<and> p \<le> length (sent c)
                          \<and> (\<forall>j\<in>set js. j < p)
           | FwSend m \<Rightarrow> \<exists>p. rx_pos c (fw_rx f) = Some (Suc p) \<and> length pre \<le> p \<and> p < length (sent c)
                          \<and> m = sent c ! p \<and> (\<forall>j\<in>set js. j < p)
           | FwDone \<Rightarrow> True)))"

definition example_summary :: summary where
  "example_summary = \<lparr>spread = 0.3, summary_bids = [], summary_asks = []\<rparr>"

definition example_late_summary :: summary where
  "example_late_summary = \<lparr>spread = 0.1, summary_bids = [], summary_asks = []\<rparr>"

definition example_summary_channel :: "summary bchan" where
  "example_summary_channel =
     \<lparr>sent = replicate 5 example_summary, cap = 16, receivers = [(0, 0)], next_rx = 1, senders = 2\<rparr>"


definition example_reader_channel :: "summary bchan" where
  "example_reader_channel =
     \<lparr>sent = [example_summary, example_late_summary, example_summary], cap = 16,
      receivers = [(1, 1), (0, 0)], next_rx = 2, senders = 1\<rparr>"

definition example_lagging_summaries :: "summary bchan" where
  "example_lagging_summaries =
     \<lparr>sent = replicate 17 example_summary, cap = 16, receivers = [(1, 0), (0, 17)], next_rx = 2, senders = 1\<rparr>"

subsection \<open>The subscription invariant\<close>

lemma fw_inv_grow:
  assumes inv: "fw_inv pre (c, f)"
    and s: "sent c' = sent c @ xs" and p: "rx_pos c' (fw_rx f) = rx_pos c (fw_rx f)"
    and n: "next_rx c \<le> next_rx c'"
  shows "fw_inv pre (c', f)"
proof -
  from inv obtain js where
      t: "take (length pre) (sent c) = pre" "length pre \<le> length (sent c)" "fw_rx f < next_rx c"
    and d: "delivered f = map (\<lambda>j. sent c ! j) js" "sorted_wrt (<) js"
      "\<forall>j\<in>set js. length pre \<le> j \<and> j < length (sent c)"
    and ph: "case fw_phase f of
             FwRecv \<Rightarrow> \<exists>p. rx_pos c (fw_rx f) = Some p \<and> length pre \<le> p \<and> p \<le> length (sent c)
                          \<and> (\<forall>j\<in>set js. j < p)
           | FwSend m \<Rightarrow> \<exists>p. rx_pos c (fw_rx f) = Some (Suc p) \<and> length pre \<le> p \<and> p < length (sent c)
                          \<and> m = sent c ! p \<and> (\<forall>j\<in>set js. j < p)
           | FwDone \<Rightarrow> True"
    unfolding fw_inv_def by auto
  have m: "map (\<lambda>j. sent c' ! j) js = map (\<lambda>j. sent c ! j) js"
    using d(3) by (simp add: s nth_append)
  show ?thesis
    unfolding fw_inv_def prod.case
  proof (intro conjI exI[of _ js])
    show "take (length pre) (sent c') = pre" using t by (simp add: s)
    show "length pre \<le> length (sent c')" "fw_rx f < next_rx c'" using t n by (simp_all add: s)
    show "delivered f = map (\<lambda>j. sent c' ! j) js" using d m by simp
    show "sorted_wrt (<) js" by (rule d(2))
    show "\<forall>j\<in>set js. length pre \<le> j \<and> j < length (sent c')" using d(3) by (auto simp: s)
    show "case fw_phase f of
             FwRecv \<Rightarrow> \<exists>p. rx_pos c' (fw_rx f) = Some p \<and> length pre \<le> p \<and> p \<le> length (sent c')
                          \<and> (\<forall>j\<in>set js. j < p)
           | FwSend m \<Rightarrow> \<exists>p. rx_pos c' (fw_rx f) = Some (Suc p) \<and> length pre \<le> p \<and> p < length (sent c')
                          \<and> m = sent c' ! p \<and> (\<forall>j\<in>set js. j < p)
           | FwDone \<Rightarrow> True"
      using ph by (cases "fw_phase f") (auto simp: p s nth_append)
  qed
qed

lemma fw_inv_done:
  assumes "fw_inv pre (c, f)" "sent c' = sent c" "next_rx c' = next_rx c"
  shows "fw_inv pre (c', f\<lparr>fw_phase := FwDone\<rparr>)"
  using assms unfolding fw_inv_def by auto

lemma fw_inv_recv_ok:
  assumes inv: "fw_inv pre (c, f)" and ph: "fw_phase f = FwRecv"
    and r: "rx_pos c (fw_rx f) = Some p" and lt: "p < length (sent c)"
  shows "fw_inv pre (set_rx_pos c (fw_rx f) (Suc p), f\<lparr>fw_phase := FwSend (sent c ! p)\<rparr>)"
  using inv unfolding fw_inv_def by (auto simp: ph r lt)

lemma fw_inv_deliver:
  assumes inv: "fw_inv pre (c, f)" and ph: "fw_phase f = FwSend m"
  shows "fw_inv pre (c, f\<lparr>fw_phase := FwRecv, delivered := delivered f @ [m]\<rparr>)"
proof -
  from inv ph obtain js p where
      t: "take (length pre) (sent c) = pre" "length pre \<le> length (sent c)" "fw_rx f < next_rx c"
    and d: "delivered f = map (\<lambda>j. sent c ! j) js" "sorted_wrt (<) js"
      "\<forall>j\<in>set js. length pre \<le> j \<and> j < length (sent c)"
    and q: "rx_pos c (fw_rx f) = Some (Suc p)" "length pre \<le> p" "p < length (sent c)"
      "m = sent c ! p" "\<forall>j\<in>set js. j < p"
    unfolding fw_inv_def by auto
  show ?thesis
    unfolding fw_inv_def prod.case
    using t d q by (intro conjI exI[of _ "js @ [p]"]) (auto simp: sorted_wrt_append)
qed

lemma fw_inv_forward_step:
  assumes st: "forward_step f c x = Some (f', c')" and inv: "fw_inv pre (c, f)"
  shows "fw_inv pre (c', f')"
proof (cases "fw_phase f")
  case FwRecv
  then obtain c1 res where x: "x = FwWake" and rv: "bchan_recv c (fw_rx f) = Some (c1, res)"
    using st by (auto simp: forward_step_def split: fw_input.splits option.splits)
  from rv show ?thesis
  proof (cases rule: bchan_recv_Some)
    case (1 p)
    then show ?thesis using st FwRecv x rv fw_inv_done [OF inv] by (auto simp: forward_step_def)
  next
    case (2 p)
    then show ?thesis using st FwRecv x rv fw_inv_recv_ok [OF inv FwRecv] by (auto simp: forward_step_def)
  next
    case (3 p)
    then show ?thesis using st FwRecv x rv fw_inv_done [OF inv]
      by (auto simp: forward_step_def split: if_splits)
  qed
next
  case (FwSend m)
  then obtain ok where x: "x = FwSendResult ok"
    using st by (auto simp: forward_step_def split: fw_input.splits)
  show ?thesis
  proof (cases ok)
    case True
    then show ?thesis using st FwSend x fw_inv_deliver [OF inv FwSend] by (simp add: forward_step_def)
  next
    case False
    then show ?thesis using st FwSend x fw_inv_done [OF inv] by (auto simp: forward_step_def)
  qed
next
  case FwDone
  then show ?thesis using st by (simp add: forward_step_def)
qed

lemma fw_inv_svc_step:
  assumes "svc_step s s'" "fw_inv pre s"
  shows "fw_inv pre s'"
  using assms
proof (induction rule: svc_step.induct)
  case (publish c f v)
  obtain c' ok where b: "bchan_send c v = (c', ok)" by fastforce
  show ?case
    using fw_inv_grow [OF publish, of c' "if ok then [v] else []"] bchan_send_sent [OF b]
      bchan_send_rx_pos [OF b] bchan_send_next_rx [OF b] b by simp
next
  case (subscribe c f)
  then have "fw_rx f < next_rx c" by (simp add: fw_inv_def)
  then show ?case
    using fw_inv_grow [OF subscribe, of "fst (bchan_subscribe c)" "[]"]
    by (simp add: bchan_subscribe_fst rx_pos_bchan_subscribe)
next
  case (other_recv r f c c' res)
  then show ?case using fw_inv_grow [of pre c f c' "[]"] bchan_recv_keeps [OF other_recv(2)] by simp
next
  case (other_drop r f c)
  then show ?case using fw_inv_grow [of pre c f "bchan_drop_rx c r" "[]"] by simp
next
  case (forward f c x f' c')
  then show ?case by (rule fw_inv_forward_step)
qed

lemma fw_inv_book_summary:
  "book_summary c = (c1, f1) \<Longrightarrow> fw_inv (sent c) (c1, f1)"
  by (auto simp: book_summary_def bchan_subscribe_def fw_inv_def rx_pos_def)

lemma fw_inv_reachable:
  assumes "svc_step\<^sup>*\<^sup>* s0 s" "fw_inv pre s0"
  shows "fw_inv pre s"
  using assms by (induction rule: rtranclp_induct) (auto intro: fw_inv_svc_step)

text \<open>
  Rule inversion for a step from a given channel and forwarder, and the frame property it
  gives: only the forwarder's own loop changes the forwarder.
\<close>

inductive_cases svc_stepE: "svc_step (c, f) (c', f')"

lemma svc_step_frame:
  "svc_step (c, f) (c', f') \<Longrightarrow> f' \<noteq> f \<Longrightarrow> \<exists>x. forward_step f c x = Some (f', c')"
  by (erule svc_stepE) auto

lemma fw_done_step:
  "svc_step s s' \<Longrightarrow> fw_phase (snd s) = FwDone \<Longrightarrow> snd s' = snd s"
  by (cases s, cases s') (fastforce simp: forward_step_def dest: svc_step_frame)

lemma fw_done_final:
  assumes "svc_step\<^sup>*\<^sup>* s s'" "fw_phase (snd s) = FwDone"
  shows "snd s' = snd s"
  using assms by (induction rule: rtranclp_induct) (auto dest: fw_done_step)

lemma forwarder_recv_FwRecv [simp]: "fw_phase f = FwRecv \<Longrightarrow> f\<lparr>fw_phase := FwRecv\<rparr> = f"
  by (cases f) simp

lemma take_Suc_drop_nth:
  "p < length xs \<Longrightarrow> take (Suc n) (drop p xs) = xs ! p # take n (drop (Suc p) xs)"
  by (simp add: Cons_nth_drop_Suc [symmetric])

lemma forward_run_keeps_up_gen:
  assumes "fw_phase f = FwRecv" "rx_pos c (fw_rx f) = Some p" "oldest c \<le> p" "p + n \<le> length (sent c)"
  shows "\<exists>c'. forward_run f c (concat (replicate n [FwWake, FwSendResult True]))
               = Some (f\<lparr>delivered := delivered f @ take n (drop p (sent c))\<rparr>, c')
           \<and> sent c' = sent c \<and> rx_pos c' (fw_rx f) = Some (p + n)"
  using assms
proof (induction n arbitrary: f c p)
  case 0
  then show ?case by simp
next
  case (Suc n)
  let ?m = "sent c ! p"
  let ?c1 = "set_rx_pos c (fw_rx f) (Suc p)"
  let ?f1 = "f\<lparr>delivered := delivered f @ [?m]\<rparr>"
  have lt: "p < length (sent c)" using Suc.prems(4) by simp
  have r: "bchan_recv c (fw_rx f) = Some (?c1, RecvOk ?m)"
    using Suc.prems(2,3) lt by (simp add: bchan_recv_def)
  have ih: "\<exists>c'. forward_run ?f1 ?c1 (concat (replicate n [FwWake, FwSendResult True]))
               = Some (?f1\<lparr>delivered := delivered ?f1 @ take n (drop (Suc p) (sent ?c1))\<rparr>, c')
           \<and> sent c' = sent ?c1 \<and> rx_pos c' (fw_rx ?f1) = Some (Suc p + n)"
    by (rule Suc.IH) (use Suc.prems in simp_all)
  show ?case
    using ih Suc.prems(1) r lt by (simp add: forward_step_def take_Suc_drop_nth)
qed

text \<open>
  C20: a client that subscribes when the summaries \<open>pre\<close> have been published is
  delivered, whatever the publisher, the other clients and its own forwarder do afterwards,
  only summaries published after it subscribed, each at most once and in publication order:
  the delivered list is the published list read at strictly increasing positions, all at or
  past the subscription point, and what was published before is never rewritten.
\<close>
theorem subscriber_receives_later_in_order:
  assumes "book_summary c0 = (c1, f1)" "svc_step\<^sup>*\<^sup>* (c1, f1) (c, f)"
  shows "take (length (sent c0)) (sent c) = sent c0
    \<and> (\<exists>js. delivered f = map (\<lambda>j. sent c ! j) js \<and> sorted_wrt (<) js
           \<and> (\<forall>j\<in>set js. length (sent c0) \<le> j \<and> j < length (sent c)))"
  using fw_inv_reachable [OF assms(2) fw_inv_book_summary [OF assms(1)]]
  unfolding fw_inv_def by auto

theorem subscriber_receives_later_in_order_witness:
  "\<exists>c f. svc_step\<^sup>*\<^sup>* (book_summary example_summary_channel) (c, f)
     \<and> delivered f = [example_late_summary]
     \<and> take 5 (sent c) = replicate 5 example_summary
     \<and> (\<exists>js. delivered f = map (\<lambda>j. sent c ! j) js \<and> sorted_wrt (<) js
           \<and> (\<forall>j\<in>set js. 5 \<le> j \<and> j < length (sent c)))"
proof -
  obtain c1 f1 where b: "book_summary example_summary_channel = (c1, f1)" by fastforce
  define c2 where "c2 = fst (bchan_send c1 example_late_summary)"
  define c3 where "c3 = set_rx_pos c2 1 6"
  define f2 where "f2 = f1\<lparr>fw_phase := FwSend example_late_summary\<rparr>"
  define f3 where "f3 = f2\<lparr>fw_phase := FwRecv, delivered := delivered f2 @ [example_late_summary]\<rparr>"
  have e: "c1 = fst (book_summary example_summary_channel)" "f1 = snd (book_summary example_summary_channel)"
    using b by simp_all
  have s1: "svc_step (c1, f1) (c2, f1)" unfolding c2_def by (rule svc_step.publish)
  have s2: "forward_step f1 c2 FwWake = Some (f2, c3)"
    by (simp add: e c2_def c3_def f2_def forward_step_def book_summary_def bchan_subscribe_def
        bchan_send_def bchan_recv_def example_summary_channel_def rx_pos_def oldest_def nth_append)
  have s3: "forward_step f2 c3 (FwSendResult True) = Some (f3, c3)"
    by (simp add: f2_def f3_def forward_step_def)
  have reach: "svc_step\<^sup>*\<^sup>* (c1, f1) (c3, f3)"
    using s1 svc_step.forward [OF s2] svc_step.forward [OF s3] by auto
  have d: "delivered f3 = [example_late_summary]"
    by (simp add: f3_def f2_def e book_summary_def bchan_subscribe_def)
  have sc: "sent c3 = replicate 5 example_summary @ [example_late_summary]"
    by (simp add: c3_def c2_def e book_summary_def bchan_subscribe_def bchan_send_def
        example_summary_channel_def)
  have "take 5 (sent c3) = replicate 5 example_summary
    \<and> (\<exists>js. delivered f3 = map (\<lambda>j. sent c3 ! j) js \<and> sorted_wrt (<) js
           \<and> (\<forall>j\<in>set js. 5 \<le> j \<and> j < length (sent c3)))"
    using subscriber_receives_later_in_order [OF b reach] by (simp add: example_summary_channel_def)
  moreover have "svc_step\<^sup>*\<^sup>* (book_summary example_summary_channel) (c3, f3)"
    using reach b by simp
  ultimately show ?thesis using d by blast
qed

text \<open>
  C21: a forwarder whose receiver has fallen behind the channel's capacity gets
  \<open>Lagged\<close> from \<open>recv\<close>, leaves its \<open>while let Ok(..)\<close> loop and drops its receiver;
  from then on, whatever else happens, it delivers nothing more: a lagging subscriber's
  stream ends instead of skipping ahead.
\<close>
theorem forwarder_ends_on_lag:
  assumes "fw_phase f = FwRecv" "rx_pos c (fw_rx f) = Some p" "p < oldest c"
    and "svc_step\<^sup>*\<^sup>* (bchan_drop_rx (set_rx_pos c (fw_rx f) (oldest c)) (fw_rx f), f\<lparr>fw_phase := FwDone\<rparr>) (c', f')"
  shows "forward_step f c FwWake
           = Some (f\<lparr>fw_phase := FwDone\<rparr>, bchan_drop_rx (set_rx_pos c (fw_rx f) (oldest c)) (fw_rx f))
    \<and> f' = f\<lparr>fw_phase := FwDone\<rparr>"
  using assms fw_done_final [OF assms(4)] by (simp add: forward_step_def bchan_recv_def)

theorem forwarder_ends_on_lag_witness:
  "forward_step \<lparr>fw_rx = 1, fw_phase = FwRecv, delivered = []\<rparr> example_lagging_summaries FwWake
     = Some (\<lparr>fw_rx = 1, fw_phase = FwDone, delivered = []\<rparr>,
             bchan_drop_rx (set_rx_pos example_lagging_summaries 1 1) 1)"
proof -
  let ?f = "\<lparr>fw_rx = 1, fw_phase = FwRecv, delivered = []\<rparr>"
  let ?c = "bchan_drop_rx (set_rx_pos example_lagging_summaries (fw_rx ?f)
              (oldest example_lagging_summaries)) (fw_rx ?f)"
  have o: "oldest example_lagging_summaries = 1"
    by (simp add: oldest_def example_lagging_summaries_def)
  have rx: "rx_pos example_lagging_summaries (Suc 0) = Some 0"
    by (simp add: rx_pos_def example_lagging_summaries_def)
  have "forward_step ?f example_lagging_summaries FwWake = Some (?f\<lparr>fw_phase := FwDone\<rparr>, ?c)
        \<and> ?f\<lparr>fw_phase := FwDone\<rparr> = ?f\<lparr>fw_phase := FwDone\<rparr>"
    by (rule forwarder_ends_on_lag [where p = 0 and c' = ?c])
       (simp_all add: o rx)
  then show ?thesis by (simp add: o)
qed

text \<open>
  C22: a forwarder that keeps up (its position at or past the oldest held summary) and
  whose client accepts every write delivers the next \<open>n\<close> published summaries, all of
  them, in order, with no gap, and its position advances by \<open>n\<close>.
\<close>
theorem forward_run_keeps_up:
  assumes "fw_phase f = FwRecv" "rx_pos c (fw_rx f) = Some p" "oldest c \<le> p" "p + n \<le> length (sent c)"
  shows "\<exists>c'. forward_run f c (concat (replicate n [FwWake, FwSendResult True]))
               = Some (f\<lparr>delivered := delivered f @ take n (drop p (sent c))\<rparr>, c')
           \<and> sent c' = sent c \<and> rx_pos c' (fw_rx f) = Some (p + n)"
  using assms by (rule forward_run_keeps_up_gen)

theorem forward_run_keeps_up_witness:
  "\<exists>c'. forward_run \<lparr>fw_rx = 1, fw_phase = FwRecv, delivered = []\<rparr> example_reader_channel
           (concat (replicate 2 [FwWake, FwSendResult True]))
         = Some (\<lparr>fw_rx = 1, fw_phase = FwRecv, delivered = [example_late_summary, example_summary]\<rparr>, c')
       \<and> rx_pos c' 1 = Some 3"
proof -
  have r: "rx_pos example_reader_channel (fw_rx \<lparr>fw_rx = 1, fw_phase = FwRecv, delivered = []\<rparr>) = Some 1"
    by (simp add: rx_pos_def example_reader_channel_def)
  have o: "oldest example_reader_channel \<le> 1" "1 + 2 \<le> length (sent example_reader_channel)"
    by (simp_all add: oldest_def example_reader_channel_def)
  show ?thesis
    using forward_run_keeps_up [where n = 2, OF _ r o]
    by (auto simp: example_reader_channel_def numeral_2_eq_2 numeral_3_eq_3)
qed

text \<open>
  C24: when a client has gone, the write fails, the forwarder ends, drops only its own
  receiver, and delivers nothing more; the published summaries and every other receiver
  are untouched.
\<close>
theorem client_disconnect_ends_only_its_forwarder:
  assumes "fw_phase f = FwSend m" "forward_step f c (FwSendResult False) = Some (f', c')"
    and "svc_step\<^sup>*\<^sup>* (c', f') (c'', f'')"
  shows "f'' = f\<lparr>fw_phase := FwDone\<rparr> \<and> rx_pos c' (fw_rx f) = None \<and> sent c' = sent c
    \<and> (\<forall>r. r \<noteq> fw_rx f \<longrightarrow> rx_pos c' r = rx_pos c r)"
proof -
  have st: "f' = f\<lparr>fw_phase := FwDone\<rparr>" "c' = bchan_drop_rx c (fw_rx f)"
    using assms(1,2) by (simp_all add: forward_step_def)
  then have "f'' = f'" using fw_done_final [OF assms(3)] by simp
  then show ?thesis using st by simp
qed

theorem client_disconnect_ends_only_its_forwarder_witness:
  "rx_pos (bchan_drop_rx example_reader_channel 1) 1 = None
   \<and> rx_pos (bchan_drop_rx example_reader_channel 1) 0 = Some 0
   \<and> forward_step \<lparr>fw_rx = 1, fw_phase = FwSend example_summary, delivered = []\<rparr>
       example_reader_channel (FwSendResult False)
     = Some (\<lparr>fw_rx = 1, fw_phase = FwDone, delivered = []\<rparr>, bchan_drop_rx example_reader_channel 1)"
proof -
  let ?f = "\<lparr>fw_rx = 1, fw_phase = FwSend example_summary, delivered = []\<rparr>"
  have st: "forward_step ?f example_reader_channel (FwSendResult False)
      = Some (?f\<lparr>fw_phase := FwDone\<rparr>, bchan_drop_rx example_reader_channel 1)"
    by (simp add: forward_step_def)
  have "?f\<lparr>fw_phase := FwDone\<rparr> = ?f\<lparr>fw_phase := FwDone\<rparr>
    \<and> rx_pos (bchan_drop_rx example_reader_channel 1) (fw_rx ?f) = None
    \<and> sent (bchan_drop_rx example_reader_channel 1) = sent example_reader_channel
    \<and> (\<forall>r. r \<noteq> fw_rx ?f \<longrightarrow> rx_pos (bchan_drop_rx example_reader_channel 1) r = rx_pos example_reader_channel r)"
    by (rule client_disconnect_ends_only_its_forwarder [OF _ st rtranclp.rtrancl_refl]) simp_all
  then show ?thesis using st by (simp add: rx_pos_def example_reader_channel_def)
qed

end
