(* ===== verification/System.thy ===== *)
theory System
  imports Connector Aggregator
begin

text \<open>
  The running server as one system: \<open>Subscriptions::init\<close>
  (\<^verbatim>\<open>src/data-streamer/src/lib.rs\<close>) creates the snapshot channel, spawns one connector
  task per requested exchange, each with its own clone of the sender, and returns the
  receiver; \<open>main\<close> (\<^verbatim>\<open>src/server/src/main.rs\<close>) creates the summary channel, keeps one
  sender for the service and moves the other into the aggregation task, which runs
  \<open>init\<close> and then its loop. The tasks are interleaved by \<open>sys_step\<close>: a connector
  task takes one step (its emitted snapshots are sent on the snapshot channel with the
  result ignored, \<open>let _ = sender.send(ob)\<close>, and a task that panics drops its sender),
  or the aggregation task takes one iteration.
\<close>

fun is_dead :: "phase \<Rightarrow> bool" where
  "is_dead (Dead p) = True"
| "is_dead _ = False"

text \<open>The \<open>match exchange\<close> of \<open>init\<close>: which task is spawned for which exchange.\<close>

definition conn_step ::
  "decoders \<Rightarrow> instrument \<Rightarrow> exchange \<Rightarrow> phase \<Rightarrow> u64 \<Rightarrow> conn_input \<Rightarrow> (conn_state \<times> effect list) option" where
  "conn_step d i e = (case e of Binance \<Rightarrow> binance_step d i | Bitstamp \<Rightarrow> bitstamp_step d i)"

text \<open>\<open>Subscriptions::init\<close>: \<open>broadcast::channel(16)\<close>, one \<open>tx.clone()\<close> and one task
  per exchange, in the order of the list; \<open>tx\<close> itself is dropped when \<open>init\<close> returns.\<close>

definition subscriptions_init :: "exchange list \<Rightarrow> order_book bchan \<times> (exchange \<times> conn_state) list" where
  "subscriptions_init exs =
     (bchan_drop_tx (fold (\<lambda>e c. bchan_clone_tx c) exs (bchan_new 16)), map (\<lambda>e. (e, conn_initial)) exs)"

text \<open>The snapshots a connector step emits, sent in order; a failed send is ignored.\<close>

fun publish_effects :: "order_book bchan \<Rightarrow> effect list \<Rightarrow> order_book bchan" where
  "publish_effects c [] = c"
| "publish_effects c (Emit ob # es) = publish_effects (fst (bchan_send c ob)) es"
| "publish_effects c (e # es) = publish_effects c es"

text \<open>A connector task that has panicked has ended and dropped its sender.\<close>

definition task_exit :: "phase \<Rightarrow> order_book bchan \<Rightarrow> order_book bchan" where
  "task_exit ph c = (if is_dead ph then bchan_drop_tx c else c)"

declare conn_step_def [step_simps] task_exit_def [step_simps]

record system =
  connectors :: "(exchange \<times> conn_state) list"
  snapshots :: "order_book bchan"
  aggregation :: aggregator
  summaries :: "summary bchan"

text \<open>\<open>main\<close>: \<open>broadcast::channel(16)\<close> for the summaries and \<open>tx.clone()\<close> for the
  service; the aggregation task runs \<open>init\<close> and reads its receiver (number 0).\<close>

definition sys_start :: "exchange list \<Rightarrow> system" where
  "sys_start exs =
     (case subscriptions_init exs of (c, cs) \<Rightarrow>
        \<lparr>connectors = cs, snapshots = c, aggregation = agg_start 0,
         summaries = bchan_clone_tx (bchan_new 16)\<rparr>)"

inductive sys_step :: "decoders \<Rightarrow> instrument \<Rightarrow> system \<Rightarrow> system \<Rightarrow> bool" for d i where
  connector:
    "k < length (connectors s) \<Longrightarrow> connectors s ! k = (e, (ph, sl)) \<Longrightarrow>
     conn_step d i e ph sl x = Some ((ph', sl'), es) \<Longrightarrow>
     sys_step d i s (s\<lparr>connectors := (connectors s)[k := (e, (ph', sl'))],
                       snapshots := task_exit ph' (publish_effects (snapshots s) es)\<rparr>)"
| aggregate:
    "agg_step order (aggregation s) (snapshots s) (summaries s) = Some (a', upd', out') \<Longrightarrow>
     sys_step d i s (s\<lparr>aggregation := a', snapshots := upd', summaries := out'\<rparr>)"

definition live :: "(exchange \<times> conn_state) list \<Rightarrow> nat" where
  "live cs = length (filter (\<lambda>(e, ph, sl). \<not> is_dead ph) cs)"

text \<open>The system invariant: the snapshot channel has one sender per running connector;
  the connectors are the requested ones; every snapshot sent is of a requested exchange and
  of the instrument; the storage holds, under each exchange, a snapshot of that exchange
  that was sent; the aggregation loop has seen \<open>Closed\<close> only if no connector runs.\<close>

definition sys_inv :: "exchange list \<Rightarrow> instrument \<Rightarrow> system \<Rightarrow> bool" where
  "sys_inv exs i s \<longleftrightarrow>
     senders (snapshots s) = live (connectors s)
     \<and> map fst (connectors s) = exs
     \<and> (\<forall>ob\<in>set (sent (snapshots s)). exchange ob \<in> set exs \<and> instrument ob = get_symbol_compact i)
     \<and> (\<forall>e ob. data (agg_storage (aggregation s)) e = Some ob \<longrightarrow> exchange ob = e \<and> ob \<in> set (sent (snapshots s)))
     \<and> (agg_phase (aggregation s) = AggStopped Closed \<longrightarrow> live (connectors s) = 0)"

subsection \<open>The system invariant\<close>

text \<open>Rule inversion: a system step is a step of one connector or of the aggregation task.\<close>

inductive_cases sys_stepE: "sys_step d i s t"

lemma publish_effects_senders [simp]: "senders (publish_effects c es) = senders c"
  by (induction c es rule: publish_effects.induct) (simp_all add: bchan_send_senders)

lemma publish_effects_sent:
  "set (sent (publish_effects c es)) \<subseteq> set (sent c) \<union> set (emitted es)"
proof (induction c es rule: publish_effects.induct)
  case (2 c ob es)
  then show ?case using bchan_send_sent_subset [of c ob] by auto
qed simp_all

lemma task_exit_simps [simp]:
  "sent (task_exit ph c) = sent c"
  "senders (task_exit ph c) = (if is_dead ph then senders c - 1 else senders c)"
  by (simp_all add: task_exit_def)

lemma live_update:
  assumes "k < length cs" "cs ! k = (e, ph, sl)" "\<not> is_dead ph"
  shows "live (cs[k := (e, ph', sl')]) + (if is_dead ph' then 1 else 0) = live cs"
  using assms
proof (induction cs arbitrary: k)
  case (Cons c cs)
  then show ?case by (cases k) (auto simp: live_def)
qed simp

lemma conn_step_Dead [simp]: "conn_step d i e (Dead p) sl x = None"
  by (cases e) (simp_all add: conn_step_def)

lemma conn_step_emitted:
  "conn_step d i e ph sl x = Some (s', es) \<Longrightarrow> ob \<in> set (emitted es) \<Longrightarrow>
     exchange ob = e \<and> instrument ob = get_symbol_compact i"
  by (cases e) (auto simp: conn_step_def dest: binance_step_emitted bitstamp_step_emitted)

lemma sys_inv_start: "sys_inv exs i (sys_start exs)"
proof -
  have "senders (fold (\<lambda>e c. bchan_clone_tx c) exs (c :: order_book bchan)) = senders c + length exs" for c
    by (induction exs arbitrary: c) (simp_all add: bchan_clone_tx_def)
  moreover have "sent (fold (\<lambda>e c. bchan_clone_tx c) exs (c :: order_book bchan)) = sent c" for c
    by (induction exs arbitrary: c) (simp_all add: bchan_clone_tx_def)
  ultimately show ?thesis
    by (simp add: sys_inv_def sys_start_def subscriptions_init_def bchan_new_def live_def agg_start_def
        storage_new_def comp_def conn_initial_def)
qed

lemma publish_effects_sent_mono: "set (sent c) \<subseteq> set (sent (publish_effects c es))"
proof (induction c es rule: publish_effects.induct)
  case (2 c ob es)
  then show ?case by (auto simp: bchan_send_def split: if_splits)
qed simp_all

lemma sys_inv_connector:
  assumes inv: "sys_inv exs i s" and k: "k < length (connectors s)" "connectors s ! k = (e, ph, sl)"
    and st: "conn_step d i e ph sl x = Some ((ph', sl'), es)"
  shows "sys_inv exs i (s\<lparr>connectors := (connectors s)[k := (e, ph', sl')],
                          snapshots := task_exit ph' (publish_effects (snapshots s) es)\<rparr>)"
proof -
  have nd: "\<not> is_dead ph" using st by (cases ph) auto
  have lv: "live ((connectors s)[k := (e, ph', sl')]) + (if is_dead ph' then 1 else 0) = live (connectors s)"
    using k nd by (rule live_update)
  have pos: "0 < live (connectors s)"
  proof -
    have "(e, ph, sl) \<in> set (filter (\<lambda>(e, ph, sl). \<not> is_dead ph) (connectors s))"
      using k nd by (auto simp: in_set_conv_nth)
    then show ?thesis unfolding live_def by (metis length_pos_if_in_set)
  qed
  have ex: "map fst (connectors s) = exs" using inv by (simp add: sys_inv_def)
  then have e: "e \<in> set exs" using k by (metis fst_conv in_set_conv_nth length_map nth_map)
  have "exs ! k = e" using ex k by (metis fst_conv nth_map)
  then have fs: "map fst ((connectors s)[k := (e, ph', sl')]) = exs"
    using ex by (metis list_update_id map_update fst_conv)
  have em: "\<forall>ob\<in>set (emitted es). exchange ob \<in> set exs \<and> instrument ob = get_symbol_compact i"
    using conn_step_emitted [OF st] e by blast
  show ?thesis
    using inv lv pos fs em publish_effects_sent [of "snapshots s" es]
      publish_effects_sent_mono [of "snapshots s" es]
    unfolding sys_inv_def by (auto split: if_splits)
qed

lemma sys_inv_aggregate:
  assumes inv: "sys_inv exs i s"
    and st: "agg_step order (aggregation s) (snapshots s) (summaries s) = Some (a', upd', out')"
  shows "sys_inv exs i (s\<lparr>aggregation := a', snapshots := upd', summaries := out'\<rparr>)"
proof -
  let ?a = "aggregation s" and ?c = "snapshots s"
  obtain c1 res where r: "bchan_recv ?c (agg_rx ?a) = Some (c1, res)" and run: "agg_phase ?a = AggRunning"
    using st by (auto simp: agg_step_def split: if_splits option.splits)
  have snd1: "senders c1 = senders ?c" by (rule bchan_recv_senders [OF r])
  have sent1: "sent c1 = sent ?c" using bchan_recv_keeps(1) [OF r] .
  show ?thesis
  proof (cases res)
    case (RecvOk ob)
    have ob: "ob \<in> set (sent ?c)" using bchan_recv_RecvOk [of ?c "agg_rx ?a" c1 ob] r RecvOk by simp
    have "agg_storage a' = agg_apply (agg_storage ?a) ob \<and> (upd' = c1 \<or> upd' = bchan_drop_rx c1 (agg_rx ?a))
          \<and> agg_phase a' \<noteq> AggStopped Closed"
      using st r run RecvOk by (auto simp: agg_step_def Let_def split: if_splits sum.splits)
    then show ?thesis
      using inv ob snd1 sent1
      by (auto simp: sys_inv_def agg_apply_def storage_update_def split: if_splits)
  next
    case (RecvErr e)
    have "agg_storage a' = agg_storage ?a \<and> upd' = bchan_drop_rx c1 (agg_rx ?a) \<and> agg_phase a' = AggStopped e"
      using st r run RecvErr by (auto simp: agg_step_def)
    moreover have "e = Closed \<Longrightarrow> senders ?c = 0"
      using bchan_recv_Closed r RecvErr by blast
    ultimately show ?thesis
      using inv snd1 sent1 by (auto simp: sys_inv_def)
  next
    case Pending
    then show ?thesis using st r run by (simp add: agg_step_def)
  qed
qed

lemma sys_inv_step: "sys_step d i s s' \<Longrightarrow> sys_inv exs i s \<Longrightarrow> sys_inv exs i s'"
  by (induction rule: sys_step.induct) (auto intro: sys_inv_connector sys_inv_aggregate)

lemma sys_inv_reachable:
  "(sys_step d i)\<^sup>*\<^sup>* (sys_start exs) s \<Longrightarrow> sys_inv exs i s"
  by (induction rule: rtranclp_induct) (auto intro: sys_inv_start sys_inv_step)

lemma live_zero: "live cs = 0 \<Longrightarrow> (e, ph, sl) \<in> set cs \<Longrightarrow> is_dead ph"
  by (auto simp: live_def filter_empty_conv)

text \<open>Both connections fail at start-up; the aggregation task then finds the snapshot
  channel closed.\<close>

lemma sys_connect_failures_dead:
  "\<exists>s. (sys_step d i)\<^sup>*\<^sup>* (sys_start [Binance, Bitstamp]) s \<and> (\<forall>(e, ph, sl)\<in>set (connectors s). is_dead ph)
     \<and> aggregation s = agg_start 0
     \<and> snapshots s = \<lparr>sent = [], cap = 16, receivers = [(0, 0)], next_rx = 1, senders = 0\<rparr>"
proof -
  define s0 where "s0 = sys_start [Binance, Bitstamp]"
  define p1 where "p1 = Dead (PanicExpect ''Expected connection with Binance to work'')"
  define p2 where "p2 = Dead (PanicExpect ''Expected connection with Bitstamp to work'')"
  have c0: "connectors s0 = [(Binance, Connecting, 100), (Bitstamp, Connecting, 100)]"
    by (simp add: s0_def sys_start_def subscriptions_init_def conn_initial_def initial_sleep_def)
  define s1 where "s1 = s0\<lparr>connectors := (connectors s0)[0 := (Binance, (p1, 100))],
                            snapshots := task_exit p1 (publish_effects (snapshots s0) [Connect (binance_url i)])\<rparr>"
  have 1: "sys_step d i s0 s1"
    unfolding s1_def
    by (rule sys_step.connector [where x = "ConnectResult False" and ph = Connecting and sl = 100])
      (simp_all add: c0 step_simps p1_def)
  define s2 where "s2 = s1\<lparr>connectors := (connectors s1)[1 := (Bitstamp, (p2, 100))],
                            snapshots := task_exit p2 (publish_effects (snapshots s1) [Connect bitstamp_url])\<rparr>"
  have 2: "sys_step d i s1 s2"
    unfolding s2_def
    by (rule sys_step.connector [where x = "ConnectResult False" and ph = Connecting and sl = 100])
      (simp_all add: s1_def c0 step_simps p2_def)
  have "snapshots s2 = \<lparr>sent = [], cap = 16, receivers = [(0, 0)], next_rx = 1, senders = 0\<rparr>"
    by (simp add: s2_def s1_def s0_def sys_start_def subscriptions_init_def bchan_new_def bchan_clone_tx_def
        bchan_drop_tx_def task_exit_def p1_def p2_def)
  moreover have "aggregation s2 = agg_start 0"
    by (simp add: s2_def s1_def s0_def sys_start_def subscriptions_init_def)
  moreover have "\<forall>(e, ph, sl)\<in>set (connectors s2). is_dead ph"
    by (simp add: s2_def s1_def c0 p1_def p2_def)
  moreover have "(sys_step d i)\<^sup>*\<^sup>* s0 s2" using 1 2 by auto
  ultimately show ?thesis unfolding s0_def by blast
qed

lemma sys_connect_failures_run:
  "\<exists>s. (sys_step d i)\<^sup>*\<^sup>* (sys_start [Binance, Bitstamp]) s \<and> agg_phase (aggregation s) = AggStopped Closed"
proof -
  obtain s2 where r: "(sys_step d i)\<^sup>*\<^sup>* (sys_start [Binance, Bitstamp]) s2" and a2: "aggregation s2 = agg_start 0"
    and c2: "snapshots s2 = \<lparr>sent = [], cap = 16, receivers = [(0, 0)], next_rx = 1, senders = 0\<rparr>"
    using sys_connect_failures_dead by blast
  define s3 where "s3 = s2\<lparr>aggregation := (agg_start 0)\<lparr>agg_phase := AggStopped Closed\<rparr>,
                            snapshots := bchan_drop_rx (snapshots s2) 0, summaries := bchan_drop_tx (summaries s2)\<rparr>"
  have "sys_step d i s2 s3"
    unfolding s3_def by (rule sys_step.aggregate [where order = "[]"])
      (simp add: step_simps c2 a2 agg_start_def)
  then have "(sys_step d i)\<^sup>*\<^sup>* (sys_start [Binance, Bitstamp]) s3" using r by auto
  moreover have "agg_phase (aggregation s3) = AggStopped Closed" by (simp add: s3_def agg_start_def)
  ultimately show ?thesis by blast
qed

lemma live_all_dead: "\<forall>(e, ph, sl)\<in>set cs. is_dead ph \<Longrightarrow> live cs = 0"
  by (auto simp: live_def filter_empty_conv)

text \<open>The Binance connector connects and forwards one frame; the aggregation task stores it
  (and then panics in \<open>merge\<close>, the book having no levels).\<close>

lemma sys_binance_connect_emit:
  assumes "connectors s = [(Binance, Connecting, 100)]" "decode_binance d ''x'' = Some b"
  shows "(sys_step d i)\<^sup>*\<^sup>* s (s\<lparr>connectors := [(Binance, Streaming, 100)],
           snapshots := publish_effects (snapshots s) [Emit (order_book_from_binance Binance (get_symbol_compact i) b)]\<rparr>)"
proof -
  define s1 where "s1 = s\<lparr>connectors := (connectors s)[0 := (Binance, (Streaming, 100))],
                           snapshots := task_exit Streaming (publish_effects (snapshots s) [Connect (binance_url i)])\<rparr>"
  have 1: "sys_step d i s s1"
    unfolding s1_def
    by (rule sys_step.connector [where x = "ConnectResult True" and ph = Connecting and sl = 100])
      (simp_all add: assms(1) step_simps)
  have c1: "connectors s1 = [(Binance, Streaming, 100)]" "snapshots s1 = snapshots s"
    by (simp_all add: s1_def assms(1) task_exit_def)
  have 2: "sys_step d i s1 (s1\<lparr>connectors := (connectors s1)[0 := (Binance, (Streaming, 100))],
             snapshots := task_exit Streaming (publish_effects (snapshots s1)
                            [Emit (order_book_from_binance Binance (get_symbol_compact i) b)])\<rparr>)"
    by (rule sys_step.connector [where x = "NextFrame (Some (WsOk (Text ''x'')))" and ph = Streaming and sl = 100])
      (simp_all add: c1 step_simps assms(2))
  show ?thesis using 1 2 c1 by (simp add: s1_def task_exit_def)
qed

lemma sys_binance_snapshot_run:
  "\<exists>s ob. (sys_step example_decoders example_instrument)\<^sup>*\<^sup>* (sys_start [Binance]) s
      \<and> data (agg_storage (aggregation s)) Binance = Some ob"
proof -
  let ?d = example_decoders and ?i = example_instrument
  define ob where "ob = order_book_from_binance Binance (get_symbol_compact ?i)
                          \<lparr>last_update_id = 7, bn_bids = [], bn_asks = []\<rparr>"
  define s0 where "s0 = sys_start [Binance]"
  have c0: "connectors s0 = [(Binance, Connecting, 100)]"
    by (simp add: s0_def sys_start_def subscriptions_init_def conn_initial_def initial_sleep_def)
  define s2 where "s2 = s0\<lparr>connectors := [(Binance, Streaming, 100)], snapshots := publish_effects (snapshots s0) [Emit ob]\<rparr>"
  have 12: "(sys_step ?d ?i)\<^sup>*\<^sup>* s0 s2"
    unfolding s2_def ob_def by (rule sys_binance_connect_emit [OF c0]) (simp add: example_decoders_def)
  have sn2: "snapshots s2 = \<lparr>sent = [ob], cap = 16, receivers = [(0, 0)], next_rx = 1, senders = 1\<rparr>"
    by (simp add: s2_def s0_def sys_start_def subscriptions_init_def bchan_new_def bchan_clone_tx_def
        bchan_drop_tx_def bchan_send_def)
  have a2: "aggregation s2 = agg_start 0"
    by (simp add: s2_def s0_def sys_start_def subscriptions_init_def)
  have ex: "exchange ob = Binance" by (simp add: ob_def order_book_from_binance_def)
  define st where "st = agg_apply storage_new ob"
  have ho: "hashmap_order st [Binance]"
    by (simp add: st_def hashmap_order_def agg_apply_def storage_update_def storage_new_def ex)
  have mg: "merge st [Binance] = Inl (PanicIndex 0 0)"
    by (simp add: merge_def merge_by_def st_def hashmap_entries_def agg_apply_def storage_update_def
        storage_new_def ex ob_def order_book_from_binance_def map_filter_simps vec_index_def tag_levels_def Let_def)
  define s3 where "s3 = s2\<lparr>aggregation := (agg_start 0)\<lparr>agg_storage := st, agg_phase := AggPanicked (PanicIndex 0 0)\<rparr>,
       snapshots := bchan_drop_rx (set_rx_pos (snapshots s2) 0 1) 0, summaries := bchan_drop_tx (summaries s2)\<rparr>"
  have 3: "sys_step ?d ?i s2 s3"
    unfolding s3_def
    by (rule sys_step.aggregate [where order = "[Binance]"])
      (simp add: step_simps sn2 a2 agg_start_def ho mg flip: st_def)
  have "(sys_step ?d ?i)\<^sup>*\<^sup>* s0 s3" using 12 3 by auto
  moreover have "data (agg_storage (aggregation s3)) Binance = Some ob"
    by (simp add: s3_def st_def agg_apply_def storage_update_def ex)
  ultimately show ?thesis unfolding s0_def by blast
qed

end
