(* ===== verification/Server.thy ===== *)
theory Server
  imports System Service
begin

text \<open>
  The whole server: the tasks of \<open>System\<close> (connectors and aggregation) together with the
  gRPC service \<open>OrderbookAggregatorService\<close> (\<^verbatim>\<open>src/server/src/lib.rs\<close>) that
  \<open>main\<close> hands to \<open>Server::builder\<close>: its \<open>sender\<close> is a clone of the summary
  channel's sender and its \<open>receiver\<close> is the channel's first receiver (number 0); every
  \<open>book_summary\<close> call subscribes a receiver and starts a forwarding task, kept here in
  the order of the calls. \<open>server_step\<close> interleaves a step of the system, a new call,
  and a step of one forwarder.
\<close>

record server =
  srv_sys :: system
  srv_fwds :: "forwarder list"

definition server_start :: "exchange list \<Rightarrow> server" where
  "server_start exs = \<lparr>srv_sys = sys_start exs, srv_fwds = []\<rparr>"

inductive server_step :: "decoders \<Rightarrow> instrument \<Rightarrow> server \<Rightarrow> server \<Rightarrow> bool" for d i where
  tasks: "sys_step d i (srv_sys s) t \<Longrightarrow> server_step d i s (s\<lparr>srv_sys := t\<rparr>)"
| call: "book_summary (summaries (srv_sys s)) = (c', f) \<Longrightarrow>
     server_step d i s (s\<lparr>srv_sys := (srv_sys s)\<lparr>summaries := c'\<rparr>, srv_fwds := srv_fwds s @ [f]\<rparr>)"
| forward: "k < length (srv_fwds s) \<Longrightarrow> forward_step (srv_fwds s ! k) (summaries (srv_sys s)) x = Some (f', c') \<Longrightarrow>
     server_step d i s (s\<lparr>srv_sys := (srv_sys s)\<lparr>summaries := c'\<rparr>, srv_fwds := (srv_fwds s)[k := f']\<rparr>)"

text \<open>A summary is a merge of snapshots the connectors sent: the merge of a storage,
  under a valid iteration order, each of whose books is a snapshot of its own exchange,
  of a requested one and of the instrument, sent on the snapshot channel.\<close>

definition merged_from_sent :: "exchange list \<Rightarrow> instrument \<Rightarrow> system \<Rightarrow> summary \<Rightarrow> bool" where
  "merged_from_sent exs i s x \<longleftrightarrow>
     (\<exists>st order r. hashmap_order st order \<and> merge st order = Inr r \<and> x = summary_from r
        \<and> (\<forall>e ob. data st e = Some ob \<longrightarrow> exchange ob = e \<and> e \<in> set exs \<and> instrument ob = get_symbol_compact i
                    \<and> ob \<in> set (sent (snapshots s))))"

definition srv_inv :: "exchange list \<Rightarrow> instrument \<Rightarrow> server \<Rightarrow> bool" where
  "srv_inv exs i s \<longleftrightarrow>
     sys_inv exs i (srv_sys s)
     \<and> (\<forall>x\<in>set (sent (summaries (srv_sys s))). merged_from_sent exs i (srv_sys s) x)
     \<and> (\<forall>f\<in>set (srv_fwds s). set (delivered f) \<subseteq> set (sent (summaries (srv_sys s)))
          \<and> (\<forall>m. fw_phase f = FwSend m \<longrightarrow> m \<in> set (sent (summaries (srv_sys s)))))"

text \<open>Decoders under which every Binance text frame is a book with one bid (100, 2) and
  one ask (101, 1).\<close>

definition example_book :: binance_order_book where
  "example_book = \<lparr>last_update_id = 7, bn_bids = [\<lparr>price = 100, amount = 2\<rparr>], bn_asks = [\<lparr>price = 101, amount = 1\<rparr>]\<rparr>"

definition example_book_decoders :: decoders where
  "example_book_decoders = \<lparr>decode_binance = (\<lambda>s. Some example_book), decode_object = (\<lambda>s. None),
                            decode_bitstamp = (\<lambda>s. None)\<rparr>"

definition srv_wf :: "server \<Rightarrow> bool" where
  "srv_wf s \<longleftrightarrow> bchan_wf (snapshots (srv_sys s)) \<and> bchan_wf (summaries (srv_sys s))"

text \<open>
  Who holds a receiver of the summary channel: the service's own receiver 0, which it
  keeps and never reads, and the receiver of every forwarder that has not ended; the
  forwarders' receivers are distinct and numbered from 1.
\<close>

definition rx_inv :: "server \<Rightarrow> bool" where
  "rx_inv s \<longleftrightarrow>
     (let c = summaries (srv_sys s); fs = srv_fwds s in
        0 < next_rx c \<and> distinct (map fw_rx fs) \<and> (\<forall>f\<in>set fs. 0 < fw_rx f \<and> fw_rx f < next_rx c)
        \<and> (\<forall>r. rx_pos c r \<noteq> None \<longleftrightarrow> r = 0 \<or> (\<exists>f\<in>set fs. fw_rx f = r \<and> fw_phase f \<noteq> FwDone)))"

subsection \<open>The server invariant\<close>

lemma bchan_send_sent_set:
  "set (sent c) \<subseteq> set (sent (fst (bchan_send c v))) \<and> set (sent (fst (bchan_send c v))) \<subseteq> insert v (set (sent c))"
  by (auto simp: bchan_send_def)

lemma agg_step_channels:
  assumes "agg_step order a upd out = Some (a', upd', out')"
  shows "sent upd' = sent upd \<and> set (sent out) \<subseteq> set (sent out')
    \<and> set (sent out') \<subseteq> set (sent out)
         \<union> {x. \<exists>r. hashmap_order (agg_storage a') order \<and> merge (agg_storage a') order = Inr r \<and> x = summary_from r}"
proof -
  obtain c1 res where r: "bchan_recv upd (agg_rx a) = Some (c1, res)" and run: "agg_phase a = AggRunning"
    using assms by (auto simp: agg_step_def split: if_splits option.splits)
  have s1: "sent c1 = sent upd" using bchan_recv_keeps(1) [OF r] .
  show ?thesis
  proof (cases res)
    case (RecvOk ob)
    then show ?thesis
      using assms r run s1 bchan_send_sent_set
      by (fastforce simp: agg_step_def Let_def split: if_splits sum.splits)
  next
    case (RecvErr e)
    then show ?thesis using assms r run s1 by (auto simp: agg_step_def)
  next
    case Pending
    then show ?thesis using assms r run by (simp add: agg_step_def)
  qed
qed

lemma merged_from_sent_mono:
  "set (sent (snapshots s)) \<subseteq> set (sent (snapshots t)) \<Longrightarrow> merged_from_sent exs i s x \<Longrightarrow> merged_from_sent exs i t x"
  unfolding merged_from_sent_def by blast

lemma sys_step_channels:
  assumes "sys_step d i s t" "sys_inv exs i t"
  shows "set (sent (snapshots s)) \<subseteq> set (sent (snapshots t))
    \<and> set (sent (summaries s)) \<subseteq> set (sent (summaries t))
    \<and> set (sent (summaries t)) \<subseteq> set (sent (summaries s)) \<union> {x. merged_from_sent exs i t x}"
  using assms
proof (induction rule: sys_step.induct)
  case (connector k s e ph sl x ph' sl' es)
  then show ?case using publish_effects_sent_mono [of "snapshots s" es] by simp
next
  case (aggregate order s a' upd' out')
  note ch = agg_step_channels [OF aggregate(1)]
  let ?t = "s\<lparr>aggregation := a', snapshots := upd', summaries := out'\<rparr>"
  have st: "\<forall>e ob. data (agg_storage a') e = Some ob \<longrightarrow> exchange ob = e \<and> e \<in> set exs
              \<and> instrument ob = get_symbol_compact i \<and> ob \<in> set (sent upd')"
    using aggregate(2) by (fastforce simp: sys_inv_def)
  have "{x. \<exists>r. hashmap_order (agg_storage a') order \<and> merge (agg_storage a') order = Inr r \<and> x = summary_from r}
        \<subseteq> {x. merged_from_sent exs i ?t x}"
  proof
    fix x assume "x \<in> {x. \<exists>r. hashmap_order (agg_storage a') order \<and> merge (agg_storage a') order = Inr r \<and> x = summary_from r}"
    then obtain r where "hashmap_order (agg_storage a') order" "merge (agg_storage a') order = Inr r" "x = summary_from r"
      by blast
    then show "x \<in> {x. merged_from_sent exs i ?t x}"
      using st unfolding merged_from_sent_def by (simp only: mem_Collect_eq simp_thms) (intro exI conjI; simp)
  qed
  then show ?case using ch by auto
qed

lemma forward_step_channel:
  assumes "forward_step f c x = Some (f', c')"
  shows "sent c' = sent c \<and> set (delivered f') \<subseteq> set (delivered f) \<union> {m. fw_phase f = FwSend m}
    \<and> (\<forall>m. fw_phase f' = FwSend m \<longrightarrow> m \<in> set (sent c))"
proof (cases "fw_phase f")
  case FwRecv
  then obtain c1 res where rv: "bchan_recv c (fw_rx f) = Some (c1, res)" and x: "x = FwWake"
    using assms by (auto simp: forward_step_def split: fw_input.splits option.splits)
  from rv show ?thesis
  proof (cases rule: bchan_recv_Some)
    case (2 p)
    then show ?thesis using assms FwRecv x rv by (auto simp: forward_step_def)
  qed (use assms FwRecv x rv in \<open>auto simp: forward_step_def split: if_splits\<close>)
next
  case (FwSend m)
  then show ?thesis using assms by (auto simp: forward_step_def split: fw_input.splits if_splits)
next
  case FwDone
  then show ?thesis using assms by (simp add: forward_step_def)
qed

text \<open>
  Rule inversion for a server step, and its frame: forwarders are never removed (a
  finished one stays, in \<open>FwDone\<close>), and each changes only by a step of its own loop.
\<close>

inductive_cases server_stepE: "server_step d i s t"

lemma server_step_fwds:
  assumes "server_step d i s t"
  shows "length (srv_fwds s) \<le> length (srv_fwds t)
    \<and> (\<forall>k < length (srv_fwds s). srv_fwds t ! k = srv_fwds s ! k
          \<or> (\<exists>x c'. forward_step (srv_fwds s ! k) (summaries (srv_sys s)) x = Some (srv_fwds t ! k, c')))"
  using assms by (elim server_stepE) (auto simp: nth_append nth_list_update)

lemma srv_inv_start: "srv_inv exs i (server_start exs)"
proof -
  obtain c cs where "subscriptions_init exs = (c, cs)" by fastforce
  then show ?thesis
    using sys_inv_start [of exs i]
    by (simp add: srv_inv_def server_start_def sys_start_def bchan_clone_tx_def bchan_new_def)
qed

lemma srv_inv_tasks:
  assumes "sys_step d i (srv_sys s) t" "srv_inv exs i s"
  shows "srv_inv exs i (s\<lparr>srv_sys := t\<rparr>)"
proof -
  have inv: "sys_inv exs i t" using sys_inv_step [OF assms(1)] assms(2) by (simp add: srv_inv_def)
  note ch = sys_step_channels [OF assms(1) inv]
  have sub: "set (sent (summaries (srv_sys s))) \<subseteq> set (sent (summaries t))" using ch by blast
  have m: "merged_from_sent exs i t x" if x: "x \<in> set (sent (summaries t))" for x
  proof (cases "x \<in> set (sent (summaries (srv_sys s)))")
    case True
    then have "merged_from_sent exs i (srv_sys s) x" using assms(2) by (simp add: srv_inv_def)
    then show ?thesis using ch by (blast intro: merged_from_sent_mono)
  next
    case False
    then show ?thesis using x ch by blast
  qed
  have "\<forall>f\<in>set (srv_fwds s). set (delivered f) \<subseteq> set (sent (summaries t))
          \<and> (\<forall>m. fw_phase f = FwSend m \<longrightarrow> m \<in> set (sent (summaries t)))"
    using assms(2) sub unfolding srv_inv_def by blast
  then show ?thesis using inv m unfolding srv_inv_def by simp
qed

lemma srv_inv_call:
  assumes "book_summary (summaries (srv_sys s)) = (c', f)" "srv_inv exs i s"
  shows "srv_inv exs i (s\<lparr>srv_sys := (srv_sys s)\<lparr>summaries := c'\<rparr>, srv_fwds := srv_fwds s @ [f]\<rparr>)"
proof -
  have "sent c' = sent (summaries (srv_sys s))" "delivered f = []" "fw_phase f = FwRecv"
    using assms(1) by (auto simp: book_summary_def bchan_subscribe_def)
  then show ?thesis using assms(2) unfolding srv_inv_def sys_inv_def merged_from_sent_def by auto
qed

lemma srv_inv_forward:
  assumes "k < length (srv_fwds s)" "forward_step (srv_fwds s ! k) (summaries (srv_sys s)) x = Some (f', c')"
    and "srv_inv exs i s"
  shows "srv_inv exs i (s\<lparr>srv_sys := (srv_sys s)\<lparr>summaries := c'\<rparr>, srv_fwds := (srv_fwds s)[k := f']\<rparr>)"
proof -
  note fs = forward_step_channel [OF assms(2)]
  have old: "set (delivered (srv_fwds s ! k)) \<subseteq> set (sent (summaries (srv_sys s)))"
    "\<forall>m. fw_phase (srv_fwds s ! k) = FwSend m \<longrightarrow> m \<in> set (sent (summaries (srv_sys s)))"
    using assms(1,3) by (auto simp: srv_inv_def)
  have new: "set (delivered f') \<subseteq> set (sent (summaries (srv_sys s)))"
    using fs old by blast
  have fw: "set (delivered g) \<subseteq> set (sent c') \<and> (\<forall>m. fw_phase g = FwSend m \<longrightarrow> m \<in> set (sent c'))"
    if "g \<in> set ((srv_fwds s)[k := f'])" for g
  proof -
    have "g = f' \<or> g \<in> set (srv_fwds s)" using that set_update_subset_insert by fastforce
    then show ?thesis using assms(3) fs new unfolding srv_inv_def by auto
  qed
  show ?thesis
    using assms(3) fs fw unfolding srv_inv_def sys_inv_def merged_from_sent_def by simp
qed

lemma srv_inv_step: "server_step d i s t \<Longrightarrow> srv_inv exs i s \<Longrightarrow> srv_inv exs i t"
  by (induction rule: server_step.induct) (auto intro: srv_inv_tasks srv_inv_call srv_inv_forward)

lemma srv_inv_reachable:
  "(server_step d i)\<^sup>*\<^sup>* (server_start exs) s \<Longrightarrow> srv_inv exs i s"
  by (induction rule: rtranclp_induct) (auto intro: srv_inv_start srv_inv_step)

lemma server_tasks_run:
  "(sys_step d i)\<^sup>*\<^sup>* y y' \<Longrightarrow> (server_step d i)\<^sup>*\<^sup>* (s\<lparr>srv_sys := y\<rparr>) (s\<lparr>srv_sys := y'\<rparr>)"
proof (induction rule: rtranclp_induct)
  case (step y1 y2)
  have "server_step d i (s\<lparr>srv_sys := y1\<rparr>) (s\<lparr>srv_sys := y2\<rparr>)"
    using server_step.tasks [of d i "s\<lparr>srv_sys := y1\<rparr>" y2] step(2) by simp
  then show ?case using step(3) by simp
qed simp

lemma example_book_merge:
  fixes i :: instrument
  defines "ob \<equiv> order_book_from_binance Binance (get_symbol_compact i) example_book"
  shows "hashmap_order (agg_apply storage_new ob) [Binance]
    \<and> merge (agg_apply storage_new ob) [Binance] =
        Inr (1, [\<lparr>lvl_exchange = ''Binance'', lvl_price = 100, lvl_amount = 2\<rparr>],
                [\<lparr>lvl_exchange = ''Binance'', lvl_price = 101, lvl_amount = 1\<rparr>])"
proof -
  have ex: "exchange ob = Binance" by (simp add: ob_def order_book_from_binance_def)
  show ?thesis
    by (simp add: hashmap_order_def merge_def merge_by_def hashmap_entries_def agg_apply_def storage_update_def
        storage_new_def ex ob_def order_book_from_binance_def map_filter_simps vec_index_def tag_levels_def
        Let_def example_book_def)
qed

lemma server_start_call:
  "book_summary (summaries (srv_sys (server_start [Binance]))) =
     (\<lparr>sent = [], cap = 16, receivers = [(1, 0), (0, 0)], next_rx = 2, senders = 2\<rparr>,
      \<lparr>fw_rx = 1, fw_phase = FwRecv, delivered = []\<rparr>)"
  by (simp add: server_start_def sys_start_def book_summary_def bchan_subscribe_def bchan_clone_tx_def bchan_new_def
      split: prod.split)

lemma server_delivery_run:
  "\<exists>s f x. (server_step example_book_decoders example_instrument)\<^sup>*\<^sup>* (server_start [Binance]) s
      \<and> f \<in> set (srv_fwds s) \<and> x \<in> set (delivered f) \<and> spread x = 1"
proof -
  let ?d = example_book_decoders and ?i = example_instrument
  define ob where "ob = order_book_from_binance Binance (get_symbol_compact ?i) example_book"
  define s0 where "s0 = server_start [Binance]"
  define f0 where "f0 = \<lparr>fw_rx = 1, fw_phase = FwRecv, delivered = []\<rparr>"
  define c1 :: "summary bchan" where "c1 = \<lparr>sent = [], cap = 16, receivers = [(1, 0), (0, 0)], next_rx = 2, senders = 2\<rparr>"
  define s1 where "s1 = s0\<lparr>srv_sys := (srv_sys s0)\<lparr>summaries := c1\<rparr>, srv_fwds := srv_fwds s0 @ [f0]\<rparr>"
  have 1: "server_step ?d ?i s0 s1"
    unfolding s1_def by (rule server_step.call) (simp add: s0_def c1_def f0_def server_start_call)
  have y1: "connectors (srv_sys s1) = [(Binance, Connecting, 100)]"
    by (simp add: s1_def s0_def server_start_def sys_start_def subscriptions_init_def conn_initial_def initial_sleep_def)
  define y3 where "y3 = (srv_sys s1)\<lparr>connectors := [(Binance, Streaming, 100)],
                          snapshots := publish_effects (snapshots (srv_sys s1)) [Emit ob]\<rparr>"
  have 23: "(server_step ?d ?i)\<^sup>*\<^sup>* s1 (s1\<lparr>srv_sys := y3\<rparr>)"
    using server_tasks_run [OF sys_binance_connect_emit [OF y1, of ?d example_book ?i], of s1]
    by (simp add: y3_def ob_def example_book_decoders_def)
  have sn3: "snapshots y3 = \<lparr>sent = [ob], cap = 16, receivers = [(0, 0)], next_rx = 1, senders = 1\<rparr>"
    and a3: "aggregation y3 = agg_start 0" and su3: "summaries y3 = c1"
    by (simp_all add: y3_def s1_def s0_def server_start_def sys_start_def subscriptions_init_def
        bchan_new_def bchan_clone_tx_def bchan_drop_tx_def bchan_send_def)
  define x where "x = summary_from (1, [\<lparr>lvl_exchange = ''Binance'', lvl_price = 100, lvl_amount = 2\<rparr>],
                                      [\<lparr>lvl_exchange = ''Binance'', lvl_price = 101, lvl_amount = 1\<rparr>])"
  define y4 where "y4 = y3\<lparr>aggregation := (agg_start 0)\<lparr>agg_storage := agg_apply storage_new ob\<rparr>,
       snapshots := set_rx_pos (snapshots y3) 0 1, summaries := fst (bchan_send c1 x)\<rparr>"
  have "sys_step ?d ?i y3 y4"
    unfolding y4_def
    by (rule sys_step.aggregate [where order = "[Binance]"])
      (use example_book_merge [of ?i] in \<open>simp add: step_simps sn3 a3 su3 agg_start_def x_def flip: ob_def\<close>)
  then have 4: "(server_step ?d ?i)\<^sup>*\<^sup>* (s1\<lparr>srv_sys := y3\<rparr>) (s1\<lparr>srv_sys := y4\<rparr>)"
    by (intro server_tasks_run) auto
  define s4 where "s4 = s1\<lparr>srv_sys := y4\<rparr>"
  have fw4: "srv_fwds s4 = [f0]" by (simp add: s4_def s1_def s0_def server_start_def)
  have su4: "summaries (srv_sys s4) = \<lparr>sent = [x], cap = 16, receivers = [(1, 0), (0, 0)], next_rx = 2, senders = 2\<rparr>"
    by (simp add: s4_def y4_def c1_def bchan_send_def)
  define s5 where "s5 = s4\<lparr>srv_sys := (srv_sys s4)\<lparr>summaries := set_rx_pos (summaries (srv_sys s4)) 1 1\<rparr>,
                             srv_fwds := (srv_fwds s4)[0 := f0\<lparr>fw_phase := FwSend x\<rparr>]\<rparr>"
  have 5: "server_step ?d ?i s4 s5"
    unfolding s5_def
    by (rule server_step.forward [where x = FwWake]) (simp_all add: fw4 su4 step_simps f0_def)
  define f6 where "f6 = f0\<lparr>fw_phase := FwRecv, delivered := [x]\<rparr>"
  define s6 where "s6 = s5\<lparr>srv_sys := (srv_sys s5)\<lparr>summaries := summaries (srv_sys s5)\<rparr>, srv_fwds := (srv_fwds s5)[0 := f6]\<rparr>"
  have 6: "server_step ?d ?i s5 s6"
    unfolding s6_def
    by (rule server_step.forward [where x = "FwSendResult True"]) (simp_all add: s5_def fw4 step_simps f6_def f0_def)
  have "(server_step ?d ?i)\<^sup>*\<^sup>* s0 s6"
    using 1 23 4 5 6 unfolding s4_def by (meson converse_rtranclp_into_rtranclp rtranclp.rtrancl_into_rtrancl rtranclp_trans)
  moreover have "f6 \<in> set (srv_fwds s6) \<and> x \<in> set (delivered f6) \<and> spread x = 1"
    by (simp add: s6_def s5_def fw4 f6_def x_def summary_from_def)
  ultimately show ?thesis unfolding s0_def by blast
qed

text \<open>
  C35: end to end, in every state of the running server, every summary a client has
  been handed is the merge, under a valid iteration order, of a storage whose books are
  snapshots the connectors sent, each under its own exchange, for a requested exchange
  and the configured instrument.
\<close>

theorem client_gets_merges_of_emitted_snapshots:
  assumes "(server_step d i)\<^sup>*\<^sup>* (server_start exs) s" "f \<in> set (srv_fwds s)" "x \<in> set (delivered f)"
  shows "\<exists>st order r. hashmap_order st order \<and> merge st order = Inr r \<and> x = summary_from r
    \<and> (\<forall>e ob. data st e = Some ob \<longrightarrow> exchange ob = e \<and> e \<in> set exs \<and> instrument ob = get_symbol_compact i
                \<and> ob \<in> set (sent (snapshots (srv_sys s))))"
proof -
  have inv: "srv_inv exs i s" using assms(1) by (rule srv_inv_reachable)
  then have "x \<in> set (sent (summaries (srv_sys s)))" using assms(2,3) by (auto simp: srv_inv_def)
  then have "merged_from_sent exs i (srv_sys s) x" using inv by (simp add: srv_inv_def)
  then show ?thesis by (simp add: merged_from_sent_def)
qed

theorem client_gets_merges_of_emitted_snapshots_witness:
  "\<exists>s f x st order r. (server_step example_book_decoders example_instrument)\<^sup>*\<^sup>* (server_start [Binance]) s
     \<and> f \<in> set (srv_fwds s) \<and> x \<in> set (delivered f) \<and> spread x = 1
     \<and> merge st order = Inr r \<and> x = summary_from r"
proof -
  obtain s f x where r: "(server_step example_book_decoders example_instrument)\<^sup>*\<^sup>* (server_start [Binance]) s"
    and f: "f \<in> set (srv_fwds s)" and x: "x \<in> set (delivered f)" and sp: "spread x = 1"
    using server_delivery_run by blast
  obtain st order r' where "merge st order = Inr r'" "x = summary_from r'"
    using client_gets_merges_of_emitted_snapshots [OF r f x] by blast
  then show ?thesis using r f x sp by blast
qed


subsection \<open>Well-formed channels\<close>

lemma bchan_wf_publish_effects: "bchan_wf c \<Longrightarrow> bchan_wf (publish_effects c es)"
  by (induction c es rule: publish_effects.induct) (simp_all add: bchan_wf_send)

lemma bchan_wf_task_exit: "bchan_wf c \<Longrightarrow> bchan_wf (task_exit ph c)"
  by (simp add: task_exit_def bchan_wf_drop_tx)

lemma bchan_wf_agg_step:
  assumes "agg_step order a upd out = Some (a', upd', out')" "bchan_wf upd" "bchan_wf out"
  shows "bchan_wf upd' \<and> bchan_wf out'"
proof -
  obtain c1 res where r: "bchan_recv upd (agg_rx a) = Some (c1, res)"
    using assms(1) by (auto simp: agg_step_def split: if_splits option.splits)
  have w1: "bchan_wf c1" using bchan_wf_recv [OF assms(2) r] .
  show ?thesis
    using assms(1,3) r w1
    by (auto simp: agg_step_def Let_def bchan_wf_drop_rx bchan_wf_drop_tx bchan_wf_send
        split: if_splits option.splits recv_result.splits sum.splits)
qed

lemma bchan_wf_forward_step:
  assumes "forward_step f c x = Some (f', c')" "bchan_wf c"
  shows "bchan_wf c'"
proof (cases "fw_phase f")
  case FwRecv
  then obtain c1 res where r: "bchan_recv c (fw_rx f) = Some (c1, res)"
    using assms(1) by (auto simp: forward_step_def split: fw_input.splits option.splits)
  have "bchan_wf c1" using bchan_wf_recv [OF assms(2) r] .
  then show ?thesis
    using assms(1) FwRecv r
    by (auto simp: forward_step_def bchan_wf_drop_rx split: fw_input.splits recv_result.splits)
qed (use assms in \<open>auto simp: forward_step_def bchan_wf_drop_rx split: fw_input.splits if_splits\<close>)

lemma bchan_wf_book_summary:
  "book_summary c = (c', f) \<Longrightarrow> bchan_wf c \<Longrightarrow> bchan_wf c'"
  using bchan_wf_subscribe [of c] by (auto simp: book_summary_def split: prod.splits)

lemma srv_wf_start: "srv_wf (server_start exs)"
proof -
  have "bchan_wf (fold (\<lambda>e c. bchan_clone_tx c) exs c)" if "bchan_wf c" for c :: "order_book bchan"
    using that by (induction exs arbitrary: c) (simp_all add: bchan_wf_clone_tx)
  then show ?thesis
    by (simp add: srv_wf_def server_start_def sys_start_def subscriptions_init_def bchan_wf_new
        bchan_wf_drop_tx bchan_wf_clone_tx split: prod.splits)
qed

lemma sys_step_wf:
  "sys_step d i s t \<Longrightarrow> bchan_wf (snapshots s) \<Longrightarrow> bchan_wf (summaries s) \<Longrightarrow>
     bchan_wf (snapshots t) \<and> bchan_wf (summaries t)"
  by (auto elim!: sys_stepE simp: bchan_wf_task_exit bchan_wf_publish_effects dest: bchan_wf_agg_step)

lemma srv_wf_step: "server_step d i s t \<Longrightarrow> srv_wf s \<Longrightarrow> srv_wf t"
  by (induction rule: server_step.induct)
    (auto simp: srv_wf_def bchan_wf_book_summary bchan_wf_forward_step dest: sys_step_wf)

lemma srv_wf_reachable: "(server_step d i)\<^sup>*\<^sup>* (server_start exs) s \<Longrightarrow> srv_wf s"
  by (induction rule: rtranclp_induct) (auto intro: srv_wf_start srv_wf_step)

subsection \<open>The receivers of the summary channel\<close>

lemma agg_step_out_receivers:
  assumes "agg_step order a upd out = Some (a', upd', out')"
  shows "receivers out' = receivers out \<and> next_rx out' = next_rx out"
  using assms
  by (auto simp: agg_step_def Let_def bchan_send_def bchan_drop_tx_def split: if_splits option.splits recv_result.splits sum.splits)

lemma sys_step_summaries_receivers:
  "sys_step d i s t \<Longrightarrow> receivers (summaries t) = receivers (summaries s) \<and> next_rx (summaries t) = next_rx (summaries s)"
  by (auto elim!: sys_stepE dest: agg_step_out_receivers)

lemma forward_step_receivers:
  assumes "forward_step f c x = Some (f', c')" "fw_phase f \<noteq> FwDone \<Longrightarrow> rx_pos c (fw_rx f) \<noteq> None"
  shows "fw_rx f' = fw_rx f \<and> next_rx c' = next_rx c \<and> (\<forall>r. r \<noteq> fw_rx f \<longrightarrow> rx_pos c' r = rx_pos c r)
    \<and> (rx_pos c' (fw_rx f) \<noteq> None \<longleftrightarrow> fw_phase f' \<noteq> FwDone)"
proof (cases "fw_phase f")
  case FwRecv
  then obtain c1 res where rv: "bchan_recv c (fw_rx f) = Some (c1, res)" and x: "x = FwWake"
    using assms(1) by (auto simp: forward_step_def split: fw_input.splits option.splits)
  from rv show ?thesis
    by (cases rule: bchan_recv_Some) (use assms(1) FwRecv x rv in \<open>auto simp: forward_step_def split: if_splits\<close>)
next
  case (FwSend m)
  then show ?thesis using assms by (auto simp: forward_step_def split: fw_input.splits if_splits)
next
  case FwDone
  then show ?thesis using assms(1) by (simp add: forward_step_def)
qed

lemma ex_in_set_update_distinct:
  assumes "distinct (map g fs)" "k < length fs" "g f' = g (fs ! k)"
  shows "(\<exists>f\<in>set (fs[k := f']). g f = r \<and> P f) \<longleftrightarrow>
           (g f' = r \<and> P f') \<or> (r \<noteq> g (fs ! k) \<and> (\<exists>f\<in>set fs. g f = r \<and> P f))"
proof -
  have ne: "g (fs ! j) \<noteq> g (fs ! k)" if "j < length fs" "j \<noteq> k" for j
    using assms(1,2) that by (simp add: distinct_conv_nth)
  show ?thesis
  proof
    assume "\<exists>f\<in>set (fs[k := f']). g f = r \<and> P f"
    then obtain j where j: "j < length fs" "g (fs[k := f'] ! j) = r" "P (fs[k := f'] ! j)"
      by (auto simp: in_set_conv_nth)
    show "(g f' = r \<and> P f') \<or> (r \<noteq> g (fs ! k) \<and> (\<exists>f\<in>set fs. g f = r \<and> P f))"
    proof (cases "j = k")
      case True
      then show ?thesis using j by simp
    next
      case False
      then show ?thesis using j ne [of j] by (auto simp: nth_list_update_neq)
    qed
  next
    assume "(g f' = r \<and> P f') \<or> (r \<noteq> g (fs ! k) \<and> (\<exists>f\<in>set fs. g f = r \<and> P f))"
    then show "\<exists>f\<in>set (fs[k := f']). g f = r \<and> P f"
    proof
      assume "g f' = r \<and> P f'"
      then show ?thesis using assms(2) set_update_memI [of k fs f'] by blast
    next
      assume "r \<noteq> g (fs ! k) \<and> (\<exists>f\<in>set fs. g f = r \<and> P f)"
      then obtain j where "j < length fs" "g (fs ! j) = r" "P (fs ! j)" "j \<noteq> k"
        by (auto simp: in_set_conv_nth) blast
      then show ?thesis by (metis length_list_update nth_list_update_neq nth_mem)
    qed
  qed
qed

lemma rx_inv_start: "rx_inv (server_start exs)"
proof -
  obtain c cs where "subscriptions_init exs = (c, cs)" by fastforce
  then show ?thesis
    by (simp add: rx_inv_def server_start_def sys_start_def bchan_clone_tx_def bchan_new_def rx_pos_def)
qed

lemma rx_inv_step: "server_step d i s t \<Longrightarrow> rx_inv s \<Longrightarrow> rx_inv t"
proof (induction rule: server_step.induct)
  case (tasks s t)
  then show ?case
    using sys_step_summaries_receivers [OF tasks(1)] by (simp add: rx_inv_def Let_def rx_pos_def)
next
  case (call s c' f)
  have "c' = fst (bchan_subscribe (summaries (srv_sys s)))"
    "f = \<lparr>fw_rx = next_rx (summaries (srv_sys s)), fw_phase = FwRecv, delivered = []\<rparr>"
    using call(1) by (auto simp: book_summary_def bchan_subscribe_def)
  then show ?case
    using call(2) by (auto simp: rx_inv_def Let_def bchan_subscribe_fst rx_pos_bchan_subscribe)
next
  case (forward k s x f' c')
  let ?c = "summaries (srv_sys s)" and ?fs = "srv_fwds s" and ?f = "srv_fwds s ! k"
  have inv: "rx_inv s" by fact
  have fk: "?f \<in> set ?fs" using forward(1) by simp
  have "fw_phase ?f \<noteq> FwDone \<Longrightarrow> rx_pos ?c (fw_rx ?f) \<noteq> None"
    using inv fk by (auto simp: rx_inv_def Let_def)
  note fr = forward_step_receivers [OF forward(2) this]
  have "map fw_rx (?fs[k := f']) = map fw_rx ?fs"
    using fr forward(1) by (metis list_update_id map_update nth_map)
  then have d: "distinct (map fw_rx (?fs[k := f']))" using inv by (simp add: rx_inv_def Let_def)
  have pos: "0 < fw_rx ?f" and inv_r: "\<forall>r. rx_pos ?c r \<noteq> None \<longleftrightarrow> r = 0 \<or> (\<exists>f\<in>set ?fs. fw_rx f = r \<and> fw_phase f \<noteq> FwDone)"
    using inv fk by (auto simp: rx_inv_def Let_def)
  have key: "rx_pos c' r \<noteq> None \<longleftrightarrow> r = 0 \<or> (\<exists>f\<in>set (?fs[k := f']). fw_rx f = r \<and> fw_phase f \<noteq> FwDone)" for r
  proof -
    have e: "(\<exists>f\<in>set (?fs[k := f']). fw_rx f = r \<and> fw_phase f \<noteq> FwDone) \<longleftrightarrow>
        (fw_rx f' = r \<and> fw_phase f' \<noteq> FwDone) \<or> (r \<noteq> fw_rx ?f \<and> (\<exists>f\<in>set ?fs. fw_rx f = r \<and> fw_phase f \<noteq> FwDone))"
      by (rule ex_in_set_update_distinct) (use inv fr forward(1) in \<open>simp_all add: rx_inv_def Let_def\<close>)
    show ?thesis
    proof (cases "r = fw_rx ?f")
      case True
      then show ?thesis using e fr pos by auto
    next
      case False
      then show ?thesis using e fr inv_r by auto
    qed
  qed
  have "\<forall>g\<in>set (?fs[k := f']). 0 < fw_rx g \<and> fw_rx g < next_rx c'"
  proof
    fix g assume "g \<in> set (?fs[k := f'])"
    then have "g = f' \<or> g \<in> set ?fs" using set_update_subset_insert [of ?fs k f'] by blast
    then show "0 < fw_rx g \<and> fw_rx g < next_rx c'" using inv fr fk by (auto simp: rx_inv_def Let_def)
  qed
  then show ?case using inv fr d key by (simp add: rx_inv_def Let_def)
qed

lemma rx_inv_reachable: "(server_step d i)\<^sup>*\<^sup>* (server_start exs) s \<Longrightarrow> rx_inv s"
  by (induction rule: rtranclp_induct) (auto intro: rx_inv_start rx_inv_step)

text \<open>
  C23: in every state of the running server the service's receiver 0 is still
  subscribed to the summary channel (the forwarders drop only their own receivers,
  numbered from 1), so publishing a summary always succeeds: the aggregation loop's
  \<open>tx.send(summary)\<close> never returns an error and its \<open>Connection dropped\<close> warning is
  unreachable.
\<close>

theorem summary_send_never_fails:
  assumes "(server_step d i)\<^sup>*\<^sup>* (server_start exs) s"
  shows "bchan_send (summaries (srv_sys s)) v = ((summaries (srv_sys s))\<lparr>sent := sent (summaries (srv_sys s)) @ [v]\<rparr>, True)"
proof -
  have "rx_pos (summaries (srv_sys s)) 0 \<noteq> None"
    using rx_inv_reachable [OF assms] by (simp add: rx_inv_def Let_def)
  then show ?thesis by (auto simp: bchan_send_def dest: rx_pos_Some_receivers)
qed

theorem summary_send_never_fails_witness:
  "\<exists>s. (server_step example_book_decoders example_instrument)\<^sup>*\<^sup>* (server_start [Binance]) s \<and> srv_fwds s \<noteq> []
      \<and> snd (bchan_send (summaries (srv_sys s)) example_summary)"
proof -
  obtain s f x where r: "(server_step example_book_decoders example_instrument)\<^sup>*\<^sup>* (server_start [Binance]) s"
    and f: "f \<in> set (srv_fwds s)"
    using server_delivery_run by blast
  show ?thesis using summary_send_never_fails [OF r, of example_summary] r f by (intro exI [of _ s]) auto
qed

text \<open>
  C36: in every state of the running server the receivers of the summary channel are
  exactly the service's receiver 0 and the receivers of the forwarders that have not
  ended: a forwarder that ends (its client gone, or lagged) drops its receiver, so none
  is leaked, and no two forwarders share one. Both channels stay well-formed.
\<close>

theorem summary_receivers_are_live_forwarders:
  assumes "(server_step d i)\<^sup>*\<^sup>* (server_start exs) s"
  shows "dom (rx_pos (summaries (srv_sys s))) = insert 0 (fw_rx ` {f \<in> set (srv_fwds s). fw_phase f \<noteq> FwDone})
    \<and> distinct (map fw_rx (srv_fwds s)) \<and> 0 \<notin> fw_rx ` set (srv_fwds s)
    \<and> bchan_wf (snapshots (srv_sys s)) \<and> bchan_wf (summaries (srv_sys s))"
proof -
  have inv: "rx_inv s" by (rule rx_inv_reachable [OF assms])
  have "dom (rx_pos (summaries (srv_sys s))) = insert 0 (fw_rx ` {f \<in> set (srv_fwds s). fw_phase f \<noteq> FwDone})"
    using inv by (auto simp: rx_inv_def Let_def)
  moreover have "0 \<notin> fw_rx ` set (srv_fwds s)" using inv by (auto simp: rx_inv_def Let_def)
  ultimately show ?thesis using inv srv_wf_reachable [OF assms] by (simp add: rx_inv_def Let_def srv_wf_def)
qed

theorem summary_receivers_are_live_forwarders_witness:
  "\<exists>s. (server_step example_book_decoders example_instrument)\<^sup>*\<^sup>* (server_start [Binance]) s \<and> srv_fwds s \<noteq> []
      \<and> dom (rx_pos (summaries (srv_sys s))) = insert 0 (fw_rx ` {f \<in> set (srv_fwds s). fw_phase f \<noteq> FwDone})"
proof -
  obtain s f x where r: "(server_step example_book_decoders example_instrument)\<^sup>*\<^sup>* (server_start [Binance]) s"
    and f: "f \<in> set (srv_fwds s)"
    using server_delivery_run by blast
  show ?thesis using summary_receivers_are_live_forwarders [OF r] r f by (intro exI [of _ s]) auto
qed

end
