(* ===== verification/Setup.thy ===== *)
theory Setup
  imports Server
begin

text \<open>
  The process setup of the server, \<^verbatim>\<open>src/server/src/main.rs\<close>: the command-line
  arguments (\<open>Args\<close>, parsed by \<open>clap\<close>, whose parsing is not modelled), the
  \<open>Subscriptions\<close> built from them for both exchanges, \<open>Subscriptions::init\<close> returning
  the \<open>Streamer\<close> (\<^verbatim>\<open>src/data-streamer/src/lib.rs\<close>), and the server \<open>main\<close> starts:
  the system of \<open>System\<close> with the gRPC service of \<open>Service\<close>, run by \<open>server_step\<close>
  for the instrument of the arguments.
\<close>

record args =
  arg_base :: string
  arg_quote :: string

record subscriptions =
  sub_instrument :: instrument
  sub_exchanges :: "exchange list"

record streamer =
  streamer_stream :: "order_book bchan"

text \<open>
  \<open>Subscriptions::init\<close>: the channel and one connector task per exchange; it always
  returns \<open>Ok\<close>, whatever its error type.
\<close>

definition init_streamer :: "subscriptions \<Rightarrow> 'e + streamer \<times> (exchange \<times> conn_state) list" where
  "init_streamer s = (case subscriptions_init (sub_exchanges s) of (c, cs) \<Rightarrow> Inr (\<lparr>streamer_stream = c\<rparr>, cs))"

definition main_subscriptions :: "args \<Rightarrow> subscriptions" where
  "main_subscriptions a =
     \<lparr>sub_instrument = \<lparr>quote = arg_quote a, base = arg_base a\<rparr>, sub_exchanges = [Binance, Bitstamp]\<rparr>"

definition server_address :: string where
  "server_address = ''[::1]:10000''"

definition main_server :: "args \<Rightarrow> server" where
  "main_server a = server_start (sub_exchanges (main_subscriptions a))"

text \<open>The server's steps: those of \<open>server_step\<close> for the instrument of the arguments.\<close>

definition main_step :: "decoders \<Rightarrow> args \<Rightarrow> server \<Rightarrow> server \<Rightarrow> bool" where
  "main_step d a = server_step d (sub_instrument (main_subscriptions a))"

section \<open>The started server\<close>

lemma init_streamer_main_server:
  "init_streamer (main_subscriptions a) =
     Inr (\<lparr>streamer_stream = snapshots (srv_sys (main_server a))\<rparr>, connectors (srv_sys (main_server a)))"
  by (simp add: init_streamer_def main_server_def server_start_def sys_start_def split: prod.split)

lemma main_server_delivers:
  assumes "(main_step d a)\<^sup>*\<^sup>* (main_server a) s" "f \<in> set (srv_fwds s)" "x \<in> set (delivered f)"
  shows "\<exists>st order r. hashmap_order st order \<and> merge st order = Inr r \<and> x = summary_from r
    \<and> (\<forall>e ob. data st e = Some ob \<longrightarrow> exchange ob = e \<and> e \<in> {Binance, Bitstamp}
                \<and> instrument ob = get_symbol_compact \<lparr>quote = arg_quote a, base = arg_base a\<rparr>)"
proof -
  let ?i = "\<lparr>quote = arg_quote a, base = arg_base a\<rparr>"
  have "(server_step d ?i)\<^sup>*\<^sup>* (server_start [Binance, Bitstamp]) s"
    using assms(1) by (simp add: main_step_def main_server_def main_subscriptions_def)
  then have "srv_inv [Binance, Bitstamp] ?i s" by (rule srv_inv_reachable)
  then have "merged_from_sent [Binance, Bitstamp] ?i (srv_sys s) x"
    using assms(2,3) by (auto simp: srv_inv_def)
  then obtain st order r where o: "hashmap_order st order" "merge st order = Inr r" "x = summary_from r"
    and d: "\<forall>e ob. data st e = Some ob \<longrightarrow> exchange ob = e \<and> e \<in> set [Binance, Bitstamp]
              \<and> instrument ob = get_symbol_compact ?i \<and> ob \<in> set (sent (snapshots (srv_sys s)))"
    unfolding merged_from_sent_def by blast
  have "\<forall>e ob. data st e = Some ob \<longrightarrow> exchange ob = e \<and> e \<in> {Binance, Bitstamp}
              \<and> instrument ob = get_symbol_compact ?i"
    using d by simp
  then show ?thesis using o by blast
qed

end
