(* ===== verification/Client.thy ===== *)
theory Client
  imports Storage
begin

text \<open>
  The terminal client \<^verbatim>\<open>src/client/src/bin/tui_client.rs\<close>: ten progress bars for
  the asks, one for the spread, ten for the bids; for each received \<open>Summary\<close> it sets
  the spread, then writes the \<open>i\<close>-th ask of the reversed ask list into \<open>pb_asks[i]\<close>
  and the \<open>i\<close>-th bid into \<open>pb_bids[i]\<close> (\<open>update_level\<close>), indexing the vectors of
  bars as Rust does: out of range is a panic. A bar is its prefix (the exchange), its
  position and its message (price and amount, printed with 8 decimals). The bar length,
  always 100, is not kept. Prices and amounts are reals, as in the server model; the
  \<open>partial_cmp(..).unwrap()\<close> of \<open>max_by\<close> panics only on NaN, which reals exclude.
\<close>

record bar =
  bar_prefix :: string
  bar_pos :: nat
  bar_msg :: "(real \<times> real) option"

record tui =
  tui_asks :: "bar list"
  tui_spread :: "real option"
  tui_bids :: "bar list"

definition new_bar :: bar where
  "new_bar = \<lparr>bar_prefix = [], bar_pos = 0, bar_msg = None\<rparr>"

definition tui_init :: tui where
  "tui_init = \<lparr>tui_asks = replicate 10 new_bar, tui_spread = None, tui_bids = replicate 10 new_bar\<rparr>"

text \<open>\<open>iter().map(|l| l.amount).max_by(..)\<close>: the largest amount, \<open>None\<close> on no level.\<close>

definition max_amount :: "level list \<Rightarrow> real option" where
  "max_amount ls = (if ls = [] then None else Some (Max (set (map lvl_amount ls))))"

text \<open>Rust's \<open>f64 as u64\<close>: truncation toward zero, saturating at both ends.\<close>

definition f64_to_u64 :: "real \<Rightarrow> nat" where
  "f64_to_u64 x = (if x \<le> 0 then 0 else if 2 ^ 64 - 1 \<le> x then 2 ^ 64 - 1 else nat \<lfloor>x\<rfloor>)"

definition update_level :: "real option \<Rightarrow> level \<Rightarrow> bar \<Rightarrow> bar" where
  "update_level ml l b =
     (let b1 = (case ml of None \<Rightarrow> b | Some len \<Rightarrow> b\<lparr>bar_pos := f64_to_u64 ((lvl_amount l / len) * 100)\<rparr>);
          b2 = (if lvl_exchange l = ''Binance'' then b1\<lparr>bar_prefix := lvl_exchange l @ '' ''\<rparr>
                else if lvl_exchange l = ''Bitstamp'' then b1\<lparr>bar_prefix := lvl_exchange l\<rparr>
                else b1)
      in b2\<lparr>bar_msg := Some (lvl_price l, lvl_amount l)\<rparr>)"

text \<open>\<open>levels.iter().enumerate().for_each(|(i, level)| bars[i].update_level(..))\<close>.\<close>

fun update_rows :: "real option \<Rightarrow> nat \<Rightarrow> level list \<Rightarrow> bar list \<Rightarrow> panic + bar list" where
  "update_rows ml i [] bs = Inr bs"
| "update_rows ml i (l # ls) bs =
     (if i < length bs then update_rows ml (Suc i) ls (bs[i := update_level ml l (bs ! i)])
      else Inl (PanicIndex i (length bs)))"

definition tui_step :: "tui \<Rightarrow> summary \<Rightarrow> panic + tui" where
  "tui_step t ob =
     (let t1 = t\<lparr>tui_spread := Some (spread ob)\<rparr>;
          bml = max_amount (summary_bids ob);
          aml = max_amount (summary_asks ob)
      in case update_rows aml 0 (rev (summary_asks ob)) (tui_asks t1) of
           Inl p \<Rightarrow> Inl p
         | Inr asks' \<Rightarrow>
             (case update_rows bml 0 (summary_bids ob) (tui_bids t1) of
                Inl p \<Rightarrow> Inl p
              | Inr bids' \<Rightarrow> Inr (t1\<lparr>tui_asks := asks', tui_bids := bids'\<rparr>)))"

text \<open>
  The loop \<open>while let Some(summary) = stream.next().await { let ob = summary?; .. }\<close>
  and the \<open>Ok(())\<close> after it, over the items the stream yields before it ends (an
  \<open>Err\<close> of the transport as \<open>Inl\<close>, a summary as \<open>Inr\<close>). The result is the bars
  after the last summary fully shown and the outcome of \<open>main\<close>: \<open>Inl\<close> a panic of the
  bar indexing, \<open>Inr (Inl e)\<close> the first error returned by \<open>?\<close>, \<open>Inr (Inr ())\<close> for
  \<open>Ok(())\<close> at the end of the stream.
\<close>

fun tui_run :: "tui \<Rightarrow> ('e + summary) list \<Rightarrow> tui \<times> (panic + ('e + unit))" where
  "tui_run t [] = (t, Inr (Inr ()))"
| "tui_run t (Inl e # items) = (t, Inr (Inl e))"
| "tui_run t (Inr ob # items) =
     (case tui_step t ob of Inl p \<Rightarrow> (t, Inl p) | Inr t' \<Rightarrow> tui_run t' items)"

text \<open>
  \<open>main\<close>: \<open>OrderbookAggregatorClient::connect(..).await?\<close>, the bars, then
  \<open>client.book_summary(Empty {}).await?\<close> and the read loop; \<open>conn\<close> and \<open>call\<close> are the
  results of the two awaits, an error of either returned by \<open>?\<close>.
\<close>

definition tui_main :: "'e + unit \<Rightarrow> 'e + unit \<Rightarrow> ('e + summary) list \<Rightarrow> tui \<times> (panic + ('e + unit))" where
  "tui_main conn call items =
     (case conn of
        Inl e \<Rightarrow> (tui_init, Inr (Inl e))
      | Inr _ \<Rightarrow> (case call of Inl e \<Rightarrow> (tui_init, Inr (Inl e)) | Inr _ \<Rightarrow> tui_run tui_init items))"

subsection \<open>What the client shows\<close>

lemma update_rows_ok:
  assumes "i + length ls \<le> length bs"
  shows "\<exists>bs'. update_rows ml i ls bs = Inr bs' \<and> length bs' = length bs
           \<and> (\<forall>j<length bs. bs' ! j = (if i \<le> j \<and> j < i + length ls then update_level ml (ls ! (j - i)) (bs ! j)
                                     else bs ! j))"
  using assms
proof (induction ls arbitrary: i bs)
  case (Cons l ls)
  let ?bs1 = "bs[i := update_level ml l (bs ! i)]"
  have lt: "i < length bs" using Cons.prems by simp
  obtain bs' where r: "update_rows ml (Suc i) ls ?bs1 = Inr bs'" and len: "length bs' = length ?bs1"
    and nth: "\<forall>j<length ?bs1. bs' ! j = (if Suc i \<le> j \<and> j < Suc i + length ls
                                         then update_level ml (ls ! (j - Suc i)) (?bs1 ! j) else ?bs1 ! j)"
    using Cons.IH [of "Suc i" ?bs1] Cons.prems by auto
  have "\<forall>j<length bs. bs' ! j = (if i \<le> j \<and> j < i + length (l # ls)
                                  then update_level ml ((l # ls) ! (j - i)) (bs ! j) else bs ! j)"
  proof (intro allI impI)
    fix j assume j: "j < length bs"
    consider "j = i" | "j < i" | "Suc i \<le> j" by linarith
    then show "bs' ! j = (if i \<le> j \<and> j < i + length (l # ls)
                          then update_level ml ((l # ls) ! (j - i)) (bs ! j) else bs ! j)"
    proof cases
      case 1
      then show ?thesis using nth j lt by simp
    next
      case 2
      then show ?thesis using nth j by simp
    next
      case 3
      then have "(l # ls) ! (j - i) = ls ! (j - Suc i)" by (simp add: Suc_diff_Suc [symmetric])
      then show ?thesis using nth j 3 by simp
    qed
  qed
  then show ?case using r len lt by simp
qed auto

lemma tui_step_ok:
  assumes "length (summary_bids ob) \<le> 10" "length (summary_asks ob) \<le> 10"
    and "length (tui_asks t) = 10" "length (tui_bids t) = 10"
  obtains t' where "tui_step t ob = Inr t'" "tui_spread t' = Some (spread ob)"
    "length (tui_asks t') = 10" "length (tui_bids t') = 10"
proof -
  obtain as' where "update_rows (max_amount (summary_asks ob)) 0 (rev (summary_asks ob)) (tui_asks t) = Inr as'"
    "length as' = 10"
    using update_rows_ok [of 0 "rev (summary_asks ob)" "tui_asks t"] assms by auto
  moreover obtain bs' where "update_rows (max_amount (summary_bids ob)) 0 (summary_bids ob) (tui_bids t) = Inr bs'"
    "length bs' = 10"
    using update_rows_ok [of 0 "summary_bids ob" "tui_bids t"] assms by auto
  ultimately show ?thesis using that by (simp add: tui_step_def Let_def)
qed

lemma merge_by_Inr_lengths:
  "merge_by sb sa s order = Inr (sp, mb, ma) \<Longrightarrow> length mb \<le> 10 \<and> length ma \<le> 10"
  using merge_by_InrD(1,2) by fastforce

text \<open>
  C33: for every summary the server publishes (whatever the sorts and the iteration
  order), the client's update does not panic: bid row \<open>j\<close> shows the \<open>j\<close>-th bid and ask
  row \<open>j\<close> the \<open>j\<close>-th ask counted from the worst, while every row past the number of
  levels keeps what an earlier summary put there.
\<close>

theorem client_displays_summary:
  assumes "merge_by sb sa s order = Inr (sp, mb, ma)"
    and "length (tui_asks t) = 10" "length (tui_bids t) = 10"
  shows "\<exists>t'. tui_step t (summary_from (sp, mb, ma)) = Inr t' \<and> tui_spread t' = Some sp
    \<and> length (tui_asks t') = 10 \<and> length (tui_bids t') = 10
    \<and> (\<forall>j<10. tui_bids t' ! j = (if j < length mb then update_level (max_amount mb) (mb ! j) (tui_bids t ! j)
                                  else tui_bids t ! j))
    \<and> (\<forall>j<10. tui_asks t' ! j = (if j < length ma then update_level (max_amount ma) (rev ma ! j) (tui_asks t ! j)
                                  else tui_asks t ! j))"
proof -
  have l: "length mb \<le> 10" "length ma \<le> 10" using merge_by_Inr_lengths [OF assms(1)] by simp_all
  obtain as' where a: "update_rows (max_amount ma) 0 (rev ma) (tui_asks t) = Inr as'"
    and al: "length as' = 10"
    and an: "\<forall>j<10. as' ! j = (if j < length ma then update_level (max_amount ma) (rev ma ! j) (tui_asks t ! j)
                               else tui_asks t ! j)"
    using update_rows_ok [of 0 "rev ma" "tui_asks t" "max_amount ma"] l assms(2) by auto
  obtain bs' where b: "update_rows (max_amount mb) 0 mb (tui_bids t) = Inr bs'"
    and bl: "length bs' = 10"
    and bn: "\<forall>j<10. bs' ! j = (if j < length mb then update_level (max_amount mb) (mb ! j) (tui_bids t ! j)
                               else tui_bids t ! j)"
    using update_rows_ok [of 0 mb "tui_bids t" "max_amount mb"] l assms(3) by auto
  show ?thesis
    using a b al bl an bn by (simp add: tui_step_def summary_from_def Let_def)
qed

theorem client_displays_summary_witness:
  "\<exists>t'. tui_step tui_init (summary_from (0.3, example_summary_bids, example_summary_asks)) = Inr t'
     \<and> tui_bids t' ! 5 = new_bar
     \<and> bar_msg (tui_bids t' ! 0) = Some (100.5, 1.0)"
proof -
  have l: "length (tui_asks tui_init) = 10" "length (tui_bids tui_init) = 10" by (simp_all add: tui_init_def)
  show ?thesis
    using client_displays_summary [OF example_storage_merge l]
    by (auto simp: tui_init_def example_summary_bids_def update_level_def Let_def)
qed

lemma bar_pos_update_level:
  "bar_pos (update_level (Some len) l b) = f64_to_u64 (lvl_amount l / len * 100)"
  by (simp add: update_level_def Let_def)

lemma f64_to_u64_le_100: "x \<le> 100 \<Longrightarrow> f64_to_u64 x \<le> 100"
  by (auto simp: f64_to_u64_def nat_le_iff floor_le_iff)

lemma max_amount_Some:
  "l \<in> set ls \<Longrightarrow> max_amount ls = Some (Max (lvl_amount ` set ls)) \<and> lvl_amount l \<le> Max (lvl_amount ` set ls)"
  by (auto simp: max_amount_def)

text \<open>
  When the amounts of a side are not negative, every bar of that side is at most
  full (position at most 100 of its length 100), and the bar of the largest positive
  amount is exactly full.
\<close>

theorem update_level_bar_bounds:
  assumes "\<forall>l'\<in>set ls. 0 \<le> lvl_amount l'" "l \<in> set ls"
  shows "bar_pos (update_level (max_amount ls) l b) \<le> 100
    \<and> (lvl_amount l = Max (lvl_amount ` set ls) \<and> 0 < lvl_amount l \<longrightarrow> bar_pos (update_level (max_amount ls) l b) = 100)"
proof -
  let ?M = "Max (lvl_amount ` set ls)" and ?a = "lvl_amount l"
  have m: "max_amount ls = Some ?M" "?a \<le> ?M" using max_amount_Some [OF assms(2)] by simp_all
  have a0: "0 \<le> ?a" using assms by simp
  have "?a / ?M * 100 \<le> 100"
  proof (cases "?M = 0")
    case False
    then have "0 < ?M" using a0 m(2) by linarith
    then have "?a / ?M \<le> 1" using m(2) by simp
    then show ?thesis by (metis mult_right_mono mult_1 zero_le_numeral times_divide_eq_left)
  qed simp
  then have le: "bar_pos (update_level (max_amount ls) l b) \<le> 100"
    by (simp add: m(1) bar_pos_update_level f64_to_u64_le_100)
  have "?a = ?M \<Longrightarrow> 0 < ?a \<Longrightarrow> bar_pos (update_level (max_amount ls) l b) = 100"
    by (simp add: m(1) bar_pos_update_level f64_to_u64_def)
  then show ?thesis using le by blast
qed

theorem update_level_bar_bounds_witness:
  "bar_pos (update_level (max_amount example_summary_bids) (example_summary_bids ! 1) new_bar) = 100"
proof -
  have h: "\<forall>l'\<in>set example_summary_bids. 0 \<le> lvl_amount l'" "example_summary_bids ! 1 \<in> set example_summary_bids"
    by (simp_all add: example_summary_bids_def)
  have "lvl_amount (example_summary_bids ! 1) = Max (lvl_amount ` set example_summary_bids)"
    "0 < lvl_amount (example_summary_bids ! 1)"
    by (simp_all add: example_summary_bids_def)
  then show ?thesis using update_level_bar_bounds [OF h, of new_bar] by blast
qed

end
