(* ===== verification/DebugClient.thy ===== *)
theory DebugClient
  imports Storage
begin

text \<open>
  The debug client \<^verbatim>\<open>src/client/src/bin/debug_client.rs\<close>: after connecting, it reads
  the stream of \<open>book_summary\<close> with \<open>while let Some(summary) = stream.next().await\<close>
  and logs \<open>summary?\<close>. The stream is the list of the items it yields before it ends,
  each an \<open>Err\<close> of the transport (\<open>Inl\<close>, of any error type \<open>'e\<close>) or a summary
  (\<open>Inr\<close>); the run returns the summaries logged and the result of \<open>main\<close>, \<open>Inr ()\<close>
  for \<open>Ok(())\<close> and \<open>Inl e\<close> when \<open>?\<close> returns the first error.
\<close>

fun debug_run :: "('e + summary) list \<Rightarrow> summary list \<times> ('e + unit)" where
  "debug_run [] = ([], Inr ())"
| "debug_run (Inl e # items) = ([], Inl e)"
| "debug_run (Inr s # items) = (case debug_run items of (logged, r) \<Rightarrow> (s # logged, r))"

text \<open>
  \<open>main\<close>: \<open>OrderbookAggregatorClient::connect(..).await?\<close>, then
  \<open>client.book_summary(Empty{}).await?\<close>, then the loop; \<open>conn\<close> and \<open>call\<close> are the results
  of the two awaits.
\<close>

definition debug_main :: "'e + unit \<Rightarrow> 'e + unit \<Rightarrow> ('e + summary) list \<Rightarrow> summary list \<times> ('e + unit)" where
  "debug_main conn call items =
     (case conn of
        Inl e \<Rightarrow> ([], Inl e)
      | Inr _ \<Rightarrow> (case call of Inl e \<Rightarrow> ([], Inl e) | Inr _ \<Rightarrow> debug_run items))"

text \<open>
  C39: the debug client logs exactly the summaries the stream yields before its first
  error, in order, and returns that error; when the stream ends without one it returns
  \<open>Ok(())\<close> after logging every item.
\<close>

theorem debug_client_stops_at_first_error:
  "debug_run items = (map projr (takeWhile (\<lambda>item. \<not> isl item) items),
     case dropWhile (\<lambda>item. \<not> isl item) items of [] \<Rightarrow> Inr () | item # _ \<Rightarrow> Inl (projl item))"
  by (induction items rule: debug_run.induct) (auto split: prod.splits)

end
