(* ===== verification/Spec2Isabelle.thy ===== *)
theory Spec2Isabelle
  imports Numbers Floats Storage Connector Aggregator Drain Service System Server Setup Client DebugClient
begin

text \<open>
  \<^bold>\<open>The universal order-book streamer in HOL.\<close>

  \<^medskip>\<^noindent>\<^bold>\<open>The program.\<close> Two crates. \<^verbatim>\<open>data-streamer\<close> holds the canonical model
  (\<^verbatim>\<open>src/data-streamer/src/model.rs\<close>, \<open>Exchange\<close> and \<open>Instrument\<close> in
  \<^verbatim>\<open>lib.rs\<close>), the exchange-native models with their \<open>From\<close> conversions
  (\<^verbatim>\<open>exchanges/binance/model.rs\<close>, \<^verbatim>\<open>exchanges/bitstamp/model.rs\<close>), the two connector
  tasks \<open>consume_binance\<close> and \<open>consume_bitstamp\<close> and the orchestrator
  \<open>Subscriptions::init\<close>, which spawns one connector per exchange on a shared
  \<open>tokio::sync::broadcast\<close> channel of capacity 16. \<^verbatim>\<open>server\<close> holds
  \<open>OrderbookStorage\<close> with its \<open>merge\<close> and the gRPC service \<open>book_summary\<close>
  (\<^verbatim>\<open>src/server/src/lib.rs\<close>), and \<open>main\<close> (\<^verbatim>\<open>src/server/src/main.rs\<close>), whose
  aggregation task reads snapshots, updates the storage, merges it and publishes a
  \<open>Summary\<close> on a second broadcast channel of capacity 16, from which every
  \<open>book_summary\<close> call subscribes a forwarding task.

  \<^medskip>\<^noindent>\<^bold>\<open>Theories.\<close>
  \<^item> \<open>Prelude\<close>: \<open>u64\<close>/\<open>usize\<close> as \<open>64 word\<close>; the \<open>panic\<close> datatype (index out
    of bounds, \<open>expect\<close>, \<open>unwrap\<close>) and results \<open>panic + 'a\<close>; checked indexing
    \<open>vec_index\<close> (Rust's \<open>v[i]\<close>); the contract of \<open>sort_unstable_by_key\<close>
    (\<open>is_sort_by_key\<close>: the output is a permutation sorted by the key, ties in any order)
    and its lemmas.
  \<^item> \<open>Model\<close>: \<open>exchange\<close>, \<open>instrument\<close> and its symbol renderings
    (\<open>get_symbol_compact\<close>, \<open>get_symbol_compact_usdt\<close>, ...), \<open>order_book_level\<close>,
    \<open>order_book\<close>, the Binance and Bitstamp records and \<open>order_book_from_binance\<close>,
    \<open>order_book_from_bitstamp\<close>; a \<open>json\<close> value type for the untyped Bitstamp parse.
    \<open>exchange\<close> is a finite type with a linear order (declaration order), so that the
    library's \<open>sorted_list_of_set\<close> enumerates the keys of a storage.
  \<^item> \<open>Numbers\<close>: \<open>de_usize_from_str\<close> of \<^verbatim>\<open>model.rs\<close> with the standard library's
    \<open>str::parse::<usize>\<close> (\<open>parse_usize\<close>, \<open>parse_digits\<close>: sign, digits,
    \<open>checked_mul\<close>/\<open>checked_add\<close> written out against \<open>2^64\<close>) and \<open>usize\<close>'s
    \<open>Display\<close> (\<open>usize_to_string\<close>).
  \<^item> \<open>Floats\<close>: \<open>de_float_from_str\<close> of \<^verbatim>\<open>model.rs\<close> with \<open>str::parse::<f64>\<close>, the
    standard library's \<open>dec2flt\<close> (\<open>parse_f64\<close>: sign, \<open>parse_number\<close> with
    \<open>take_digits\<close> and \<open>parse_scientific\<close>, else \<open>parse_inf_nan\<close> with its bit-5 case
    fold \<open>ascii_fold\<close>); a number is kept as its exact decimal value
    (\<open>f64_lit_value\<close>).
  \<^item> \<open>Storage\<close>: \<open>orderbook_storage\<close> (the \<open>HashMap\<close> as a map), \<open>storage_update\<close>,
    and \<open>merge_by\<close>, the body of \<open>OrderbookStorage::merge\<close>, parametrised by the
    iteration order of the map (\<open>hashmap_order\<close>: any enumeration of its keys) and by the
    two sorts (any functions meeting the sort contract); \<open>merge\<close> instantiates them with
    the sorts by the keys \<open>bid_key\<close>, \<open>ask_key\<close>. The \<open>FloatOrd\<close> pairs are
    lexicographic pairs of reals. Every storage has a valid iteration order, its keys
    sorted (\<open>hashmap_order_sorted_keys\<close>).
  \<^item> \<open>Connector\<close>: each connector task as a step function \<open>binance_step\<close>,
    \<open>bitstamp_step\<close> on (\<open>phase\<close>, \<open>sleep\<close>), one step per await point
    (\<open>conn_input\<close>: connection result, write result, next frame or end of stream, end of
    the sleep), returning its effects (\<open>effect\<close>: connect, write, emit a snapshot,
    sleep); \<open>conn_run\<close> runs a sequence of inputs. JSON decoding is a parameter
    (\<open>decoders\<close>), so every theorem holds for every decoder.
  \<^item> \<open>Broadcast\<close>: the library channel, from its documentation: every value ever sent,
    the capacity, each receiver's read position; \<open>bchan_send\<close> fails only with no
    receiver, \<open>bchan_recv\<close> returns \<open>Lagged\<close> to a receiver more than \<open>cap\<close> behind,
    \<open>Closed\<close> once no sender is left.
  \<^item> \<open>Aggregator\<close>: the aggregation task of \<open>main\<close> as \<open>agg_step\<close>/\<open>agg_run\<close> on
    its storage, its receiver of the snapshot channel and the summary channel.
  \<^item> \<open>Drain\<close>: the same loop run until its \<open>recv\<close> would wait (\<open>agg_drain\<close>), a
    \<open>function\<close> whose termination measure is the number of unread snapshots; the
    \<open>HashMap\<close> order of each merge is a function \<open>ho\<close> of the storage (\<open>next_order\<close>).
  \<^item> \<open>Service\<close>: \<open>book_summary\<close> and the forwarding loop (\<open>forward_step\<close>,
    \<open>forward_run\<close>), and \<open>svc_step\<close>, the interleaving of one forwarder with the
    publisher, other subscriptions and other receivers; its inversion rule
    \<open>svc_stepE\<close> gives the frame \<open>svc_step_frame\<close>: only the forwarder's loop changes it.
  \<^item> \<open>System\<close>: \<open>Subscriptions::init\<close> (\<open>subscriptions_init\<close>, \<open>conn_step\<close>) and
    \<open>main\<close> (\<open>sys_start\<close>) composed into \<open>sys_step\<close>, which interleaves the connector
    tasks (their snapshots sent with \<open>publish_effects\<close>, a panicking task dropping its
    sender, \<open>task_exit\<close>) with the aggregation task; \<open>sys_inv\<close> is its invariant,
    proved one rule at a time; \<open>sys_stepE\<close> is its inversion rule and
    \<open>sys_binance_connect_emit\<close> the run of a Binance connector that connects and
    emits one snapshot, shared by the example runs.
  \<^item> \<open>Server\<close>: the whole server (\<open>server_step\<close>): \<open>sys_step\<close> interleaved with the
    gRPC calls of \<open>book_summary\<close> (each adding a forwarder) and the steps of every
    forwarder; \<open>srv_inv\<close> ties every delivered summary to the snapshots sent,
    \<open>rx_inv\<close> says who holds a receiver of the summary channel (receiver 0 of the
    service and the receiver of every forwarder not ended), and \<open>bchan_wf\<close> (from
    \<open>Broadcast\<close>) is the channels' well-formedness; all three are proved one rule at
    a time. \<open>server_stepE\<close> gives the frame \<open>server_step_fwds\<close>
    (forwarders are never removed, and change only by their own steps), and
    \<open>server_tasks_run\<close> lifts system runs to server runs.
  \<^item> \<open>Setup\<close>: the process setup of the server's \<open>main\<close>: \<open>Args\<close>, the
    \<open>Subscriptions\<close> built from them (\<open>main_subscriptions\<close>), \<open>Subscriptions::init\<close>
    returning the \<open>Streamer\<close> (\<open>init_streamer\<close>), the started server \<open>main_server\<close>
    and its steps \<open>main_step\<close> for the arguments' instrument.
  \<^item> \<open>Client\<close>: the per-summary update of \<^verbatim>\<open>tui_client.rs\<close> (\<open>tui_step\<close>: the spread,
    then \<open>update_rows\<close> over the reversed asks and the bids with Rust's panicking
    indexing, \<open>update_level\<close> with the saturating \<open>as u64\<close> cast \<open>f64_to_u64\<close>),
    its read loop \<open>tui_run\<close> over the items of the stream, with \<open>summary?\<close>, and
    \<open>main\<close> (\<open>tui_main\<close>) with the results of \<open>connect\<close> and \<open>book_summary\<close>.
  \<^item> \<open>DebugClient\<close>: \<open>main\<close> of \<^verbatim>\<open>debug_client.rs\<close> (\<open>debug_main\<close>) and its read
    loop (\<open>debug_run\<close>), logging each summary and returning the first \<open>Err\<close>.

  \<^medskip>\<^noindent>\<^bold>\<open>What is proved.\<close>
  \<^item> Merge (C1--C6, C25): against an abstract specification, the multiset of tagged
    levels stored (\<open>stored_side\<close>), for every iteration order and every sort meeting
    the contract: the published sides carry the ten best keys (C1), the spread is the
    lowest ask minus the highest bid (C2), the sides are sorted (C3), the merge panics
    exactly when a side is empty (C4), the lengths are \<open>min 10 n\<close> (C5), and the
    result is determined up to ties (C6); when no two stored levels of a side share a
    key it is determined outright, exchange tags included (C25), while at a concrete
    storage with a tie the \<open>HashMap\<close> order decides the tags
    (\<open>merge_tie_depends_on_iteration_order\<close>).
  \<^item> Connectors (C7--C15): backoff doubles over failed sessions (C7) and the delay
    slept is exact in \<open>u64\<close> exactly up to 57 doublings (C8); after 62 failed sessions the delay is 0 ms
    (C9); every delay is \<open>100 * 2^k\<close> (C10); the
    Bitstamp connector does not reset the delay on any non-empty run of binary frames
    while Binance does, so the next session's delay differs (C12); emitted snapshots carry their own exchange (C13); a failed connection (C14)
    and a malformed text frame (C15) end the task.
  \<^item> Aggregation (C16--C19): the storage holds the latest snapshot of each exchange
    (C16); each received snapshot publishes the merge of the storage so far (C17); a
    lagging receive ends the loop for good (C18); a snapshot that leaves the storage
    with no ask or no bid panics the task, which drops its receiver and its summary
    sender (C19).
  \<^item> Service (C20--C24): by rule induction over \<open>svc_step\<close>, a subscriber gets only
    summaries published after it subscribed, in order, each once (C20); a lagging
    forwarder ends the client's stream (C21); a forwarder that keeps up delivers every
    summary (C22); a client's disconnect ends only its forwarder (C24).
  \<^item> Whole server (C26--C28, this theory): by rule induction over \<open>sys_step\<close>, the
    aggregation loop sees \<open>Closed\<close> only once every connector has panicked (C26), and
    the storage only holds snapshots a connector of that exchange sent (C27); once every
    connector task has ended and every snapshot is read, the loop's next \<open>recv\<close>
    returns \<open>Closed\<close> and the loop ends instead of waiting (C28).
  \<^item> Decimal strings (C11, C34): \<open>de_float_from_str\<close> reads a signed decimal string,
    with an optional exponent, as its exact decimal value before rounding (C11); it also
    accepts \<open>inf\<close>, \<open>infinity\<close> and \<open>nan\<close> in any case as non-finite values, and
    rejects the empty string and a lone sign (C34).
  \<^item> Numbers (C29--C31): \<open>de_usize_from_str\<close> reads back every printed \<open>usize\<close>
    (C29), gives the exact value of a digit string below \<open>2^64\<close> and \<open>PosOverflow\<close>
    above (C30), and its error cases (C31).
  \<^item> Symbols (C32): \<open>get_symbol_compact_usdt\<close> preserves case, so capitals on the
    command line give a mixed-case Binance stream name.
  \<^item> Client (C33): every summary the merge publishes is shown without a panic, rows
    past its levels keeping stale content.
  \<^item> Whole server with its clients (C23, C35, C36): by rule induction over \<open>server_step\<close>,
    every summary a forwarder sends is the merge of snapshots the connectors sent for
    the configured instrument (C35); the service's receiver 0 is never dropped, so
    publishing a summary never fails (C23); and the summary channel's receivers are
    exactly receiver 0 and those of the forwarders not ended, none leaked or shared,
    with both channels well-formed (C36).
  \<^item> Drain (C37, C38): the loop reaches a waiting \<open>recv\<close> or ends after at most one
    iteration per unread snapshot plus one (C37, termination); unless a merge panics it
    reads every snapshot sent, publishing one summary each (C38, liveness).
  \<^item> Clients (C39, C40): the debug client logs the summaries before the first \<open>Err\<close>
    and returns it (C39); whatever the results of connecting and calling, on the
    server's summaries the terminal client's \<open>main\<close> never panics and ends as the debug
    client's does (C40, this theory).

  \<^medskip>\<^noindent>\<^bold>\<open>Bounds.\<close> The delay is a \<open>u64\<close> with wrap-around, as in a release build:
  \<open>100 * 2^k\<close> stays below \<open>2^64\<close> exactly for \<open>k \<le> 57\<close> and is \<open>0\<close> modulo \<open>2^64\<close>
  exactly for \<open>k \<ge> 62\<close> (\<open>100 = 25 * 2^2\<close>). The channel capacity is the 16 of the
  code. No fuel is needed: every loop of the program is a run over a finite sequence
  of await-point results, and a loop that never ends is a run that can always be
  extended; the one loop run to a fixed point, \<open>agg_drain\<close>, terminates by its
  measure (each iteration that keeps running reads a snapshot). The clients' streams
  are the finite lists of items they yield before ending.

  \<^medskip>\<^noindent>\<^bold>\<open>Not modelled.\<close> Floating point: prices and amounts are reals, so the
  theorems hold for finite, non-NaN values, and the spread is exact; \<open>de_float_from_str\<close>
  is modelled up to the last step of \<open>dec2flt\<close>, the rounding of the exact decimal
  value to the nearest \<open>f64\<close> (and its overflow to infinity), and the non-finite values
  it accepts are not carried into the order books. The WebSocket and
  gRPC transports and serde's decoding of whole messages (their results are the inputs
  of the steps and the \<open>decoders\<close> parameter, which the usize fields' parse is not tied
  to), the tokio scheduler (interleavings
  are sequences of steps), logging, \<open>clap\<close>'s command-line parsing, binding the
  server address, the
  gRPC connection and rendering of the clients, and the log output of
  \<^verbatim>\<open>debug_client\<close> (its loop is modelled, its \<open>info!\<close> is the list it returns).
  The system relation \<open>sys_step\<close> covers the connectors and the aggregation task, and
  \<open>server_step\<close> adds the gRPC calls and their forwarders; \<open>svc_step\<close> studies one
  forwarder with the publisher as its environment.
\<close>

section \<open>Properties of the whole server\<close>

text \<open>
  C26: in every state of the running server, the aggregation loop has stopped on
  \<open>Closed\<close> only if every connector task has panicked: the connectors hold the only
  senders of the snapshot channel and drop them only by ending.
\<close>

theorem aggregation_closed_only_when_connectors_dead:
  assumes "(sys_step d i)\<^sup>*\<^sup>* (sys_start exs) s" "agg_phase (aggregation s) = AggStopped Closed"
    and "(e, ph, sl) \<in> set (connectors s)"
  shows "is_dead ph"
proof -
  have "sys_inv exs i s" using assms(1) by (rule sys_inv_reachable)
  then have "live (connectors s) = 0" using assms(2) by (simp add: sys_inv_def)
  then show ?thesis using assms(3) by (rule live_zero)
qed

theorem aggregation_closed_only_when_connectors_dead_witness:
  "\<exists>s. (sys_step example_decoders example_instrument)\<^sup>*\<^sup>* (sys_start [Binance, Bitstamp]) s \<and> agg_phase (aggregation s) = AggStopped Closed
      \<and> (\<forall>(e, ph, sl) \<in> set (connectors s). is_dead ph)"
proof -
  obtain s where r: "(sys_step example_decoders example_instrument)\<^sup>*\<^sup>* (sys_start [Binance, Bitstamp]) s"
    and c: "agg_phase (aggregation s) = AggStopped Closed"
    using sys_connect_failures_run by blast
  have "\<forall>(e, ph, sl) \<in> set (connectors s). is_dead ph"
    using aggregation_closed_only_when_connectors_dead [OF r c] by blast
  then show ?thesis using r c by blast
qed

text \<open>
  C27: in every state of the running server, the storage holds under each exchange a
  snapshot of that exchange, for a requested exchange and the configured instrument, that
  a connector sent on the snapshot channel.
\<close>

theorem storage_holds_emitted_snapshots:
  assumes "(sys_step d i)\<^sup>*\<^sup>* (sys_start exs) s" "data (agg_storage (aggregation s)) e = Some ob"
  shows "exchange ob = e \<and> e \<in> set exs \<and> instrument ob = get_symbol_compact i \<and> ob \<in> set (sent (snapshots s))"
  using sys_inv_reachable [OF assms(1)] assms(2) unfolding sys_inv_def by fastforce

theorem storage_holds_emitted_snapshots_witness:
  "\<exists>s ob. (sys_step example_decoders example_instrument)\<^sup>*\<^sup>* (sys_start [Binance]) s
      \<and> data (agg_storage (aggregation s)) Binance = Some ob
      \<and> exchange ob = Binance \<and> instrument ob = ''btcusd''"
proof -
  obtain s ob where r: "(sys_step example_decoders example_instrument)\<^sup>*\<^sup>* (sys_start [Binance]) s"
    and d: "data (agg_storage (aggregation s)) Binance = Some ob"
    using sys_binance_snapshot_run by blast
  have "exchange ob = Binance \<and> instrument ob = get_symbol_compact example_instrument"
    using storage_holds_emitted_snapshots [OF r d] by blast
  then show ?thesis
    using r d by (auto simp: example_instrument_def get_symbol_compact_def)
qed

text \<open>
  C28: the aggregation loop does not wait forever for connectors that are gone: once
  every connector task has ended (both connections failing at start-up is one way) and
  the loop has read every snapshot sent, its next \<open>recv\<close> returns \<open>Closed\<close> and the loop
  ends, dropping its receiver and its summary sender, whatever the iteration order.
\<close>

theorem connect_failures_stop_aggregation:
  assumes "(sys_step d i)\<^sup>*\<^sup>* (sys_start exs) s" "\<forall>(e, ph, sl)\<in>set (connectors s). is_dead ph"
    and "agg_phase (aggregation s) = AggRunning"
    and "rx_pos (snapshots s) (agg_rx (aggregation s)) = Some (length (sent (snapshots s)))"
  shows "agg_step order (aggregation s) (snapshots s) (summaries s) =
           Some ((aggregation s)\<lparr>agg_phase := AggStopped Closed\<rparr>,
                 bchan_drop_rx (snapshots s) (agg_rx (aggregation s)), bchan_drop_tx (summaries s))"
proof -
  have "senders (snapshots s) = 0"
    using sys_inv_reachable [OF assms(1)] live_all_dead [OF assms(2)] by (simp add: sys_inv_def)
  then have "bchan_recv (snapshots s) (agg_rx (aggregation s)) = Some (snapshots s, RecvErr Closed)"
    using assms(4) by (simp add: bchan_recv_def oldest_def)
  then show ?thesis using assms(3) by (simp add: agg_step_def)
qed

theorem connect_failures_stop_aggregation_witness:
  "\<exists>s. (sys_step example_decoders example_instrument)\<^sup>*\<^sup>* (sys_start [Binance, Bitstamp]) s
      \<and> (\<forall>(e, ph, sl)\<in>set (connectors s). is_dead ph)
      \<and> agg_phase (fst (the (agg_step [] (aggregation s) (snapshots s) (summaries s)))) = AggStopped Closed"
proof -
  obtain s where r: "(sys_step example_decoders example_instrument)\<^sup>*\<^sup>* (sys_start [Binance, Bitstamp]) s"
    and d: "\<forall>(e, ph, sl)\<in>set (connectors s). is_dead ph" and a: "aggregation s = agg_start 0"
    and c: "snapshots s = \<lparr>sent = [], cap = 16, receivers = [(0, 0)], next_rx = 1, senders = 0\<rparr>"
    using sys_connect_failures_dead by blast
  have h: "agg_phase (aggregation s) = AggRunning"
    "rx_pos (snapshots s) (agg_rx (aggregation s)) = Some (length (sent (snapshots s)))"
    by (simp_all add: a c agg_start_def rx_pos_def)
  show ?thesis using connect_failures_stop_aggregation [OF r d h, of "[]"] r d by (intro exI [of _ s]) simp
qed

lemma tui_run_like_debug_run:
  assumes "\<forall>item\<in>set items. \<forall>ob. item = Inr ob \<longrightarrow>
             (\<exists>sb sa s order r. merge_by sb sa s order = Inr r \<and> ob = summary_from r)"
    and "length (tui_asks t) = 10" "length (tui_bids t) = 10"
  shows "snd (tui_run t items) = Inr (snd (debug_run items))
    \<and> tui_spread (fst (tui_run t items)) =
        (if fst (debug_run items) = [] then tui_spread t else Some (spread (last (fst (debug_run items)))))"
  using assms
proof (induction t items rule: tui_run.induct)
  case (3 t ob items)
  obtain sb sa s order sp mb ma where m: "merge_by sb sa s order = Inr (sp, mb, ma)" and ob: "ob = summary_from (sp, mb, ma)"
    using "3.prems"(1) by (metis list.set_intros(1) prod_cases3)
  have "length (summary_bids ob) \<le> 10" "length (summary_asks ob) \<le> 10"
    using merge_by_Inr_lengths [OF m] ob by (simp_all add: summary_from_def)
  then obtain t' where st: "tui_step t ob = Inr t'" "tui_spread t' = Some (spread ob)"
    "length (tui_asks t') = 10" "length (tui_bids t') = 10"
    using "3.prems"(2,3) by (rule tui_step_ok)
  have "snd (tui_run t' items) = Inr (snd (debug_run items))
    \<and> tui_spread (fst (tui_run t' items)) =
        (if fst (debug_run items) = [] then tui_spread t' else Some (spread (last (fst (debug_run items)))))"
    using "3.IH" [OF st(1)] "3.prems"(1) st(3,4) by simp
  then show ?case using st by (simp split: prod.splits)
qed simp_all

text \<open>
  C40: the two clients read the stream of a server alike: whatever the results of
  connecting and of the \<open>book_summary\<close> call, on the summaries the server publishes the
  terminal client never panics, ends exactly as the debug client does (the first error
  of \<open>?\<close>, or \<open>Ok(())\<close> at the end of the stream), and its spread bar shows the spread of
  the last summary the debug client logs.
\<close>

theorem clients_end_alike:
  assumes "\<forall>item\<in>set items. \<forall>ob. item = Inr ob \<longrightarrow>
             (\<exists>sb sa s order r. merge_by sb sa s order = Inr r \<and> ob = summary_from r)"
  shows "snd (tui_main conn call items) = Inr (snd (debug_main conn call items))
    \<and> tui_spread (fst (tui_main conn call items)) =
        (if fst (debug_main conn call items) = [] then None
         else Some (spread (last (fst (debug_main conn call items)))))"
proof -
  have l: "length (tui_asks tui_init) = 10" "length (tui_bids tui_init) = 10" "tui_spread tui_init = None"
    by (simp_all add: tui_init_def)
  show ?thesis
    using tui_run_like_debug_run [OF assms l(1,2)] l(3)
    by (simp add: tui_main_def debug_main_def split: sum.split)
qed

theorem clients_end_alike_witness:
  "snd (tui_main (Inr ()) (Inr ())
          [Inr (summary_from (0.3, example_summary_bids, example_summary_asks)), Inl ''unavailable''])
     = Inr (Inl ''unavailable'')
   \<and> tui_spread (fst (tui_main (Inr ()) (Inr ())
          [Inr (summary_from (0.3, example_summary_bids, example_summary_asks)), Inl ''unavailable'']))
     = Some 0.3"
proof -
  have h: "\<forall>item\<in>set [Inr (summary_from (0.3, example_summary_bids, example_summary_asks)), Inl ''unavailable''].
      \<forall>ob. item = Inr ob \<longrightarrow> (\<exists>sb sa s order r. merge_by sb sa s order = Inr r \<and> ob = summary_from r)"
    using example_storage_merge by (simp, blast)
  show ?thesis using clients_end_alike [OF h, of "Inr ()" "Inr ()"] by (simp add: debug_main_def summary_from_def)
qed

end
